theory Spec2Isabelle
  imports Main "HOL-Library.Sublist" "HOL-Library.AList"
begin

section \<open>Strings\<close>

text \<open>
  Python strings are modelled as \<^typ>\<open>string\<close>; a character is read as the code point
  \<open>of_char c\<close> below 256, and the character classes of \<open>re\<close> and \<open>str.lower\<close> are
  the ones Python 3 has on these code points.
\<close>

definition is_digit :: "char \<Rightarrow> bool" where
  \<comment> \<open>\<open>\d\<close>\<close>
  "is_digit c = (48 \<le> (of_char c :: nat) \<and> (of_char c :: nat) \<le> 57)"

definition is_word :: "char \<Rightarrow> bool" where
  \<comment> \<open>\<open>\w\<close>: alphanumeric code points and the underscore\<close>
  "is_word c = (let n = (of_char c :: nat) in
     (48 \<le> n \<and> n \<le> 57) \<or> (65 \<le> n \<and> n \<le> 90) \<or> n = 95 \<or> (97 \<le> n \<and> n \<le> 122) \<or>
     n = 170 \<or> n = 178 \<or> n = 179 \<or> n = 181 \<or> n = 185 \<or> n = 186 \<or>
     (188 \<le> n \<and> n \<le> 190) \<or> (192 \<le> n \<and> n \<le> 214) \<or> (216 \<le> n \<and> n \<le> 246) \<or> 248 \<le> n)"

definition is_any :: "char \<Rightarrow> bool" where
  \<comment> \<open>\<open>.\<close> without DOTALL: everything but the line feed\<close>
  "is_any c = (c \<noteq> CHR 0x0A)"

definition lower_char :: "char \<Rightarrow> char" where
  "lower_char c = (let n = (of_char c :: nat) in
     if (65 \<le> n \<and> n \<le> 90) \<or> (192 \<le> n \<and> n \<le> 214) \<or> (216 \<le> n \<and> n \<le> 222)
     then char_of (n + 32) else c)"

definition lower :: "string \<Rightarrow> string" where
  "lower s = map lower_char s"

fun split_on :: "char \<Rightarrow> string \<Rightarrow> string list" where
  \<comment> \<open>\<open>s.split(c)\<close>: never empty, one part more than there are separators\<close>
  "split_on c [] = [ []]"
| "split_on c (x # s) =
     (if x = c then [] # split_on c s
      else (case split_on c s of p # ps \<Rightarrow> (x # p) # ps | [] \<Rightarrow> [ [x]]))"

fun join :: "string \<Rightarrow> string list \<Rightarrow> string" where
  \<comment> \<open>\<open>sep.join(parts)\<close>\<close>
  "join sep [] = []"
| "join sep [p] = p"
| "join sep (p # q # ps) = p @ sep @ join sep (q # ps)"

fun contains :: "string \<Rightarrow> string \<Rightarrow> bool" where
  \<comment> \<open>\<open>sub in s\<close>\<close>
  "contains sub [] = (sub = [])"
| "contains sub (c # s) = (prefix sub (c # s) \<or> contains sub s)"

definition startswith :: "string \<Rightarrow> string \<Rightarrow> bool" where
  "startswith s p = prefix p s"

definition endswith :: "string \<Rightarrow> string \<Rightarrow> bool" where
  "endswith s p = suffix p s"

section \<open>The standard library: \<open>urlparse(url).path\<close> and \<open>Path(p).name\<close>\<close>

text \<open>
  The two library calls of line 32, as CPython 3.11 has them. \<open>urlparse\<close> drops
  leading control characters and spaces, removes tabs and line breaks, splits off the
  scheme, the host, the fragment, the query and the parameters of the last segment, and
  raises ValueError when the host has an unbalanced bracket or a bracketed part that is
  no IP address. The validation of a bracketed host belongs to the \<open>ipaddress\<close>
  module; it is the parameter \<open>check_host\<close> of the functions below, so that what
  is proved holds whatever it answers. \<open>Path(p).name\<close> is taken on a POSIX path.
\<close>

datatype error = ValueError

definition scheme_char :: "char \<Rightarrow> bool" where
  \<comment> \<open>\<open>scheme_chars\<close>: ASCII letters, digits and \<open>+-.\<close>\<close>
  "scheme_char c = (let n = (of_char c :: nat) in
     (48 \<le> n \<and> n \<le> 57) \<or> (65 \<le> n \<and> n \<le> 90) \<or> (97 \<le> n \<and> n \<le> 122) \<or>
     n = 43 \<or> n = 45 \<or> n = 46)"

definition ascii_alpha :: "char \<Rightarrow> bool" where
  "ascii_alpha c = (let n = (of_char c :: nat) in (65 \<le> n \<and> n \<le> 90) \<or> (97 \<le> n \<and> n \<le> 122))"

definition uses_params :: "string list" where
  "uses_params = ['''', ''ftp'', ''hdl'', ''prospero'', ''http'', ''imap'', ''https'', ''shttp'',
     ''rtsp'', ''rtsps'', ''rtspu'', ''sip'', ''sips'', ''mms'', ''sftp'', ''tel'']"

definition split_scheme :: "string \<Rightarrow> string \<times> string" where
  \<comment> \<open>the scheme (lower-cased) and what follows its colon; no scheme is \<open>''''\<close>\<close>
  "split_scheme url =
     (let pre = takeWhile (\<lambda>c. c \<noteq> CHR '':'') url in
      if CHR '':'' \<in> set url \<and> pre \<noteq> [] \<and> ascii_alpha (hd url) \<and> list_all scheme_char pre
      then (lower pre, drop (Suc (length pre)) url) else ('''', url))"

definition netloc_delim :: "char \<Rightarrow> bool" where
  "netloc_delim c = (c = CHR ''/'' \<or> c = CHR ''?'' \<or> c = CHR ''#'')"

definition splitnetloc :: "string \<Rightarrow> string \<times> string" where
  \<comment> \<open>\<open>_splitnetloc(url, 2)\<close> when the url starts with two slashes\<close>
  "splitnetloc url =
     (if take 2 url = ''//''
      then (takeWhile (\<lambda>c. \<not> netloc_delim c) (drop 2 url),
            dropWhile (\<lambda>c. \<not> netloc_delim c) (drop 2 url))
      else ('''', url))"

definition bracketed_host :: "string \<Rightarrow> string" where
  \<comment> \<open>\<open>netloc.partition('[')[2].partition(']')[0]\<close>\<close>
  "bracketed_host netloc =
     takeWhile (\<lambda>c. c \<noteq> CHR '']'') (drop 1 (dropWhile (\<lambda>c. c \<noteq> CHR ''['') netloc))"

definition netloc_ok :: "(string \<Rightarrow> bool) \<Rightarrow> string \<Rightarrow> bool" where
  \<comment> \<open>the checks of \<open>urlsplit\<close> that raise ValueError. \<open>check_host\<close> stands for
      \<open>_check_bracketed_host\<close> (the \<open>ipaddress\<close> validation of a bracketed host, which
      differs between Python versions); \<open>_checknetloc\<close> never raises on code points
      below 256.\<close>
  "netloc_ok check_host netloc =
     (let ob = CHR ''['' \<in> set netloc; cb = CHR '']'' \<in> set netloc in
      if (ob \<and> \<not> cb) \<or> (cb \<and> \<not> ob) then False
      else if ob \<and> cb then check_host (bracketed_host netloc)
      else True)"

definition splitparams :: "string \<Rightarrow> string" where
  \<comment> \<open>the first component of \<open>_splitparams(url)\<close>\<close>
  "splitparams url =
     (if CHR ''/'' \<in> set url
      then (let k = length url - Suc (length (takeWhile (\<lambda>c. c \<noteq> CHR ''/'') (rev url)));
                tl = drop k url
            in if CHR '';'' \<in> set tl then take k url @ takeWhile (\<lambda>c. c \<noteq> CHR '';'') tl else url)
      else takeWhile (\<lambda>c. c \<noteq> CHR '';'') url)"

definition urlparse_path :: "(string \<Rightarrow> bool) \<Rightarrow> string \<Rightarrow> error + string" where
  \<comment> \<open>\<open>urlparse(url).path\<close>\<close>
  "urlparse_path check_host url0 =
     (let url1 = dropWhile (\<lambda>c. (of_char c :: nat) \<le> 32) url0;
          url2 = filter (\<lambda>c. c \<noteq> CHR 0x09 \<and> c \<noteq> CHR 0x0D \<and> c \<noteq> CHR 0x0A) url1;
          (scheme, url3) = split_scheme url2;
          (netloc, url4) = splitnetloc url3
      in if \<not> netloc_ok check_host netloc then Inl ValueError
         else
           (let url5 = takeWhile (\<lambda>c. c \<noteq> CHR ''#'') url4;
                url6 = takeWhile (\<lambda>c. c \<noteq> CHR ''?'') url5
            in Inr (if scheme \<in> set uses_params \<and> CHR '';'' \<in> set url6
                    then splitparams url6 else url6)))"

definition path_name :: "string \<Rightarrow> string" where
  \<comment> \<open>\<open>Path(p).name\<close> of a POSIX path: the last component that is neither empty nor
      a single dot, the empty string when there is none\<close>
  "path_name p =
     (case filter (\<lambda>x. x \<noteq> [] \<and> x \<noteq> ''.'') (split_on CHR ''/'' p) of
        [] \<Rightarrow> [] | x # xs \<Rightarrow> last (x # xs))"

section \<open>Regular expressions by backtracking\<close>

text \<open>
  A pattern is a function from the text still to be read to the list of the remainders
  it can leave, in the order in which the backtracking matcher of \<open>re\<close> tries them. The
  first complete match of a sequence of patterns is then the head of the list.
\<close>

type_synonym matcher = "string \<Rightarrow> string list"

definition re_chr :: "(char \<Rightarrow> bool) \<Rightarrow> matcher" where
  "re_chr P s = (case s of [] \<Rightarrow> [] | c # r \<Rightarrow> if P c then [r] else [])"

definition re_seq :: "matcher \<Rightarrow> matcher \<Rightarrow> matcher" where
  "re_seq p q s = concat (map q (p s))"

definition re_opt :: "matcher \<Rightarrow> matcher" where
  \<comment> \<open>greedy \<open>?\<close>\<close>
  "re_opt p s = p s @ [s]"

function re_star :: "matcher \<Rightarrow> matcher" where
  \<comment> \<open>greedy \<open>*\<close>: one more round first, stopping last\<close>
  "re_star p s = concat (map (re_star p) (filter (\<lambda>r. length r < length s) (p s))) @ [s]"
  by pat_completeness auto
termination
  by (relation "measure (\<lambda>(p, s). length s)") auto

function re_star_lazy :: "matcher \<Rightarrow> matcher" where
  \<comment> \<open>lazy \<open>*?\<close>: stopping first\<close>
  "re_star_lazy p s = s # concat (map (re_star_lazy p) (filter (\<lambda>r. length r < length s) (p s)))"
  by pat_completeness auto
termination
  by (relation "measure (\<lambda>(p, s). length s)") auto

declare re_star.simps [simp del] re_star_lazy.simps [simp del]

definition re_plus :: "matcher \<Rightarrow> matcher" where
  "re_plus p = re_seq p (re_star p)"

definition re_plus_lazy :: "matcher \<Rightarrow> matcher" where
  "re_plus_lazy p = re_seq p (re_star_lazy p)"

definition re_eol :: matcher where
  \<comment> \<open>\<open>$\<close> without MULTILINE: at the end, or before a line feed that ends the text\<close>
  "re_eol s = (if s = [] \<or> s = [CHR 0x0A] then [s] else [])"

definition consumed :: "string \<Rightarrow> string \<Rightarrow> string" where
  \<comment> \<open>what was read between the text \<open>s\<close> and its remainder \<open>r\<close>\<close>
  "consumed s r = take (length s - length r) s"

definition version_re :: matcher where
  \<comment> \<open>\<open>\d+(?:\.\d+)*(?:\w+)?\<close>\<close>
  "version_re =
     re_seq (re_plus (re_chr is_digit))
       (re_seq (re_star (re_seq (re_chr (\<lambda>c. c = CHR ''.'')) (re_plus (re_chr is_digit))))
          (re_opt (re_plus (re_chr is_word))))"

definition tail_re :: matcher where
  \<comment> \<open>\<open>-.*$\<close>\<close>
  "tail_re = re_seq (re_chr (\<lambda>c. c = CHR ''-'')) (re_seq (re_star (re_chr is_any)) re_eol)"

definition primary_matches :: "string \<Rightarrow> (string \<times> string) list" where
  \<comment> \<open>all the ways \<open>^(.+?)-(\d+(?:\.\d+)*(?:\w+)?)-.*$\<close> matches, with groups 1 and 2,
      in backtracking order\<close>
  "primary_matches s =
     concat (map (\<lambda>r1.
       concat (map (\<lambda>r2.
         concat (map (\<lambda>r3.
           map (\<lambda>_. (consumed s r1, consumed r2 r3)) (tail_re r3))
           (version_re r2)))
         (re_chr (\<lambda>c. c = CHR ''-'') r1)))
       (re_plus_lazy (re_chr is_any) s))"

definition primary_match :: "string \<Rightarrow> (string \<times> string) option" where
  \<comment> \<open>\<open>re.match(r'^(.+?)-(\d+(?:\.\d+)*(?:\w+)?)-.*$', filename)\<close>\<close>
  "primary_match s = (case primary_matches s of [] \<Rightarrow> None | g # _ \<Rightarrow> Some g)"

section \<open>\<open>extract_package_info\<close>\<close>

definition strip_extension :: "string \<Rightarrow> string" where
  \<comment> \<open>\<open>re.sub(r'\.(conda|tar\.bz2)$', '', filename)\<close>; the \<open>$\<close> also matches before
      a final line feed, which stays\<close>
  "strip_extension f =
     (if endswith f ''.conda'' then take (length f - 6) f
      else if endswith f ''.tar.bz2'' then take (length f - 8) f
      else if endswith f (''.conda'' @ [CHR 0x0A]) then take (length f - 7) f @ [CHR 0x0A]
      else if endswith f (''.tar.bz2'' @ [CHR 0x0A]) then take (length f - 9) f @ [CHR 0x0A]
      else f)"

definition starts_with_digit :: "string \<Rightarrow> bool" where
  \<comment> \<open>\<open>re.match(r'^\d+', part)\<close>\<close>
  "starts_with_digit p = (case p of [] \<Rightarrow> False | c # _ \<Rightarrow> is_digit c)"

fun fallback_scan :: "string list \<Rightarrow> nat \<Rightarrow> (string \<times> string) option" where
  \<comment> \<open>the loop \<open>for i in range(len(parts)-1, 0, -1)\<close>, entered at \<open>i\<close>\<close>
  "fallback_scan parts 0 = None"
| "fallback_scan parts (Suc i) =
     (if starts_with_digit (parts ! Suc i)
      then Some (join ''-'' (take (Suc i) parts), parts ! Suc i)
      else fallback_scan parts i)"

definition parse_filename :: "string \<Rightarrow> string \<times> string" where
  \<comment> \<open>lines 39 to 56, on the filename with its extension removed\<close>
  "parse_filename filename =
     (case primary_match filename of
        Some (name, version) \<Rightarrow> (name, version)
      | None \<Rightarrow>
          (let parts = split_on CHR ''-'' filename in
           case (if length parts \<ge> 2 then fallback_scan parts (length parts - 1) else None) of
             Some (name, version) \<Rightarrow> (name, version)
           | None \<Rightarrow> (filename, ''unknown'')))"

definition cleaned_filename :: "(string \<Rightarrow> bool) \<Rightarrow> string \<Rightarrow> error + string" where
  \<comment> \<open>lines 32 to 35\<close>
  "cleaned_filename check_host conda_url =
     (case urlparse_path check_host conda_url of
        Inl e \<Rightarrow> Inl e
      | Inr p \<Rightarrow> Inr (strip_extension (path_name p)))"

definition extract_package_info :: "(string \<Rightarrow> bool) \<Rightarrow> string \<Rightarrow> error + string \<times> string" where
  "extract_package_info check_host conda_url =
     (case cleaned_filename check_host conda_url of
        Inl e \<Rightarrow> Inl e
      | Inr filename \<Rightarrow> Inr (parse_filename filename))"

section \<open>The lock document and \<open>extract_packages_from_pixi_lock\<close>\<close>

text \<open>
  The parsed document has the shape the function reads: a mapping that may have the key
  \<open>environments\<close>, under it a mapping from environment names to mappings that may
  have the key \<open>packages\<close>, under it a mapping from platform names to sequences of
  package entries. A Python dict keeps its keys in insertion order, so a mapping that
  is iterated is an association list; a package entry is a mapping from strings to
  strings.
\<close>

type_synonym package_entry = "(string \<times> string) list"

record env_data =
  env_packages :: "(string \<times> package_entry list) list option"

record lock_data =
  environments :: "(string \<times> env_data) list option"

record package =
  pkg_name :: string
  pkg_version :: string
  pkg_environment :: string
  pkg_platform :: string
  pkg_url :: string
  pkg_ecosystem :: string

definition make_package :: "string \<Rightarrow> string \<Rightarrow> string \<Rightarrow> string \<times> string \<Rightarrow> package" where
  \<comment> \<open>the dict appended at lines 76 to 83\<close>
  "make_package env_name platform conda_url nv =
     \<lparr>pkg_name = fst nv, pkg_version = snd nv, pkg_environment = env_name,
      pkg_platform = platform, pkg_url = conda_url, pkg_ecosystem = ''conda''\<rparr>"

fun entries_loop ::
  "(string \<Rightarrow> bool) \<Rightarrow> string \<Rightarrow> string \<Rightarrow> package_entry list \<Rightarrow> package list \<Rightarrow> error + package list"
where
  \<comment> \<open>\<open>for package_entry in platform_packages\<close>\<close>
  "entries_loop ck env_name platform [] packages = Inr packages"
| "entries_loop ck env_name platform (package_entry # rest) packages =
     (case map_of package_entry ''conda'' of
        None \<Rightarrow> entries_loop ck env_name platform rest packages
      | Some conda_url \<Rightarrow>
          (case extract_package_info ck conda_url of
             Inl e \<Rightarrow> Inl e
           | Inr nv \<Rightarrow>
               entries_loop ck env_name platform rest
                 (packages @ [make_package env_name platform conda_url nv])))"

fun platforms_loop ::
  "(string \<Rightarrow> bool) \<Rightarrow> string \<Rightarrow> (string \<times> package_entry list) list \<Rightarrow> package list \<Rightarrow> error + package list"
where
  \<comment> \<open>\<open>for platform, platform_packages in env_data['packages'].items()\<close>\<close>
  "platforms_loop ck env_name [] packages = Inr packages"
| "platforms_loop ck env_name ((platform, platform_packages) # rest) packages =
     (case entries_loop ck env_name platform platform_packages packages of
        Inl e \<Rightarrow> Inl e
      | Inr packages' \<Rightarrow> platforms_loop ck env_name rest packages')"

fun environments_loop ::
  "(string \<Rightarrow> bool) \<Rightarrow> (string \<times> env_data) list \<Rightarrow> package list \<Rightarrow> error + package list"
where
  \<comment> \<open>\<open>for env_name, env_data in data['environments'].items()\<close>\<close>
  "environments_loop ck [] packages = Inr packages"
| "environments_loop ck ((env_name, ed) # rest) packages =
     (case env_packages ed of
        None \<Rightarrow> environments_loop ck rest packages
      | Some platforms \<Rightarrow>
          (case platforms_loop ck env_name platforms packages of
             Inl e \<Rightarrow> Inl e
           | Inr packages' \<Rightarrow> environments_loop ck rest packages'))"

definition no_environments_message :: string where
  \<comment> \<open>the line printed at line 63, without its leading symbol\<close>
  "no_environments_message = ''No environments found in pixi.lock''"

definition extract_packages_from_pixi_lock ::
  "(string \<Rightarrow> bool) \<Rightarrow> lock_data \<Rightarrow> (error + package list) \<times> string list"
where
  \<comment> \<open>the value returned (or the exception raised), and the lines printed\<close>
  "extract_packages_from_pixi_lock ck data =
     (case environments data of
        None \<Rightarrow> (Inr [], [no_environments_message])
      | Some envs \<Rightarrow> (environments_loop ck envs [], []))"

text \<open>
  The walk of the specification: the (locator, environment, platform) triples of the
  entries that carry the \<open>conda\<close> key, in document order.
\<close>

definition entry_triples :: "string \<Rightarrow> string \<Rightarrow> package_entry \<Rightarrow> (string \<times> string \<times> string) list" where
  "entry_triples env_name platform package_entry =
     (case map_of package_entry ''conda'' of
        None \<Rightarrow> [] | Some conda_url \<Rightarrow> [(conda_url, env_name, platform)])"

definition env_triples :: "string \<times> env_data \<Rightarrow> (string \<times> string \<times> string) list" where
  "env_triples e =
     (case env_packages (snd e) of
        None \<Rightarrow> []
      | Some platforms \<Rightarrow>
          concat (map (\<lambda>pp. concat (map (entry_triples (fst e) (fst pp)) (snd pp))) platforms))"

definition walk :: "lock_data \<Rightarrow> (string \<times> string \<times> string) list" where
  "walk data = (case environments data of None \<Rightarrow> [] | Some envs \<Rightarrow> concat (map env_triples envs))"

definition triple_of :: "package \<Rightarrow> string \<times> string \<times> string" where
  "triple_of p = (pkg_url p, pkg_environment p, pkg_platform p)"

section \<open>The classifier of \<open>create_requirements_txt\<close>\<close>

definition python_indicators :: "string list" where
  "python_indicators =
     [''python'', ''py-'', ''pip'', ''setuptools'', ''wheel'', ''certifi'',
      ''charset-normalizer'', ''idna'', ''urllib3'', ''requests'', ''numpy'',
      ''pandas'', ''scipy'', ''matplotlib'', ''seaborn'', ''scikit-learn'',
      ''tensorflow'', ''torch'', ''pytorch'', ''flask'', ''django'', ''fastapi'',
      ''pydantic'', ''sqlalchemy'', ''psycopg2'', ''pymongo'', ''redis-py'',
      ''brotli-python'', ''pycparser'', ''pysocks'', ''pyyaml'', ''markupsafe'',
      ''jinja2'', ''networkx'', ''gitpython'', ''typing_extensions'']"

definition indicator_hit :: "string \<Rightarrow> bool" where
  \<comment> \<open>\<open>any(indicator in name for indicator in python_indicators)\<close>\<close>
  "indicator_hit name = list_ex (\<lambda>indicator. contains indicator name) python_indicators"

definition is_python_package :: "string \<Rightarrow> bool" where
  \<comment> \<open>the condition of lines 107 to 111 on \<open>pkg['name']\<close>\<close>
  "is_python_package n =
     (let name = lower n in
      indicator_hit name \<or> startswith name ''py'' \<or> contains ''-py'' name \<or>
      endswith name ''-python'' \<or> contains ''python'' name)"

definition requirement_line :: "package \<Rightarrow> string" where
  "requirement_line p =
     (if pkg_version p \<noteq> ''unknown'' then pkg_name p @ ''=='' @ pkg_version p else pkg_name p)"

definition python_packages :: "package list \<Rightarrow> string set" where
  \<comment> \<open>the set built by the loop of \<open>create_requirements_txt\<close>\<close>
  "python_packages packages =
     set (map requirement_line (filter (\<lambda>p. is_python_package (pkg_name p)) packages))"

definition create_requirements_txt :: "package list \<Rightarrow> string set \<times> nat" where
  \<comment> \<open>the lines written (sorted in the file) and the count returned\<close>
  "create_requirements_txt packages = (python_packages packages, card (python_packages packages))"

section \<open>\<open>create_osv_lockfile\<close> and \<open>create_package_json_style\<close>\<close>

record osv_entry =
  osv_name :: string
  osv_version :: string
  osv_resolved :: string
  osv_ecosystem :: string
  osv_environment :: string
  osv_platform :: string

record osv_lockfile =
  osv_total_packages :: nat
  osv_environments :: "string set"
  osv_platforms :: "string set"
  osv_packages :: "(string \<times> osv_entry) list"

definition pkg_key :: "package \<Rightarrow> string" where
  "pkg_key p = pkg_name p @ ''@'' @ pkg_version p"

definition osv_entry_of :: "package \<Rightarrow> osv_entry" where
  "osv_entry_of p =
     \<lparr>osv_name = pkg_name p, osv_version = pkg_version p, osv_resolved = pkg_url p,
      osv_ecosystem = ''conda'', osv_environment = pkg_environment p,
      osv_platform = pkg_platform p\<rparr>"

definition osv_store :: "package \<Rightarrow> (string \<times> osv_entry) list \<Rightarrow> (string \<times> osv_entry) list" where
  \<comment> \<open>\<open>lockfile["packages"][pkg_key] = {...}\<close>: a key already there keeps its place\<close>
  "osv_store p d = AList.update (pkg_key p) (osv_entry_of p) d"

definition create_osv_lockfile :: "package list \<Rightarrow> osv_lockfile \<times> nat" where
  \<comment> \<open>the manifest written and the count returned\<close>
  "create_osv_lockfile packages =
     (let d = fold osv_store packages [] in
      (\<lparr>osv_total_packages = length packages,
        osv_environments = set (map pkg_environment packages),
        osv_platforms = set (map pkg_platform packages),
        osv_packages = d\<rparr>, length d))"

record npm_dependency =
  npm_version :: string
  npm_resolved :: string
  npm_ecosystem :: string

record package_lock =
  root_dependencies :: "(string \<times> string) list"
  dependencies :: "(string \<times> npm_dependency) list"

definition npm_dependency_of :: "package \<Rightarrow> npm_dependency" where
  "npm_dependency_of p =
     \<lparr>npm_version = pkg_version p, npm_resolved = pkg_url p, npm_ecosystem = ''conda''\<rparr>"

definition npm_store :: "package \<Rightarrow> package_lock \<Rightarrow> package_lock" where
  \<comment> \<open>the body of the loop at lines 191 to 198\<close>
  "npm_store p l =
     (if pkg_version p \<noteq> ''unknown''
      then \<lparr>root_dependencies = AList.update (pkg_name p) (pkg_version p) (root_dependencies l),
            dependencies = AList.update (pkg_name p) (npm_dependency_of p) (dependencies l)\<rparr>
      else l)"

definition create_package_json_style :: "package list \<Rightarrow> package_lock \<times> nat" where
  "create_package_json_style packages =
     (let l = fold npm_store packages \<lparr>root_dependencies = [], dependencies = []\<rparr> in
      (l, length (dependencies l)))"

section \<open>Concrete inputs\<close>

definition scenario_url :: string where
  "scenario_url =
     ''https://conda.anaconda.org/conda-forge/linux-64/brotli-python-1.1.0-py39hf88036b_3.conda''"

definition scenario_document :: lock_data where
  "scenario_document =
     \<lparr>environments = Some [(''default'',
        \<lparr>env_packages = Some [(''linux-64'', [ [(''conda'', scenario_url)]])]\<rparr>)]\<rparr>"

definition mixed_document :: lock_data where
  \<comment> \<open>two environments, one without packages; a \<open>conda\<close> and a \<open>pypi\<close> entry\<close>
  "mixed_document =
     \<lparr>environments = Some
        [(''default'', \<lparr>env_packages = Some
            [(''linux-64'', [ [(''conda'', scenario_url)],
                             [(''pypi'', ''https://files.pythonhosted.org/packages/idna-3.7-py3-none-any.whl'')]]),
             (''osx-arm64'', [ [(''conda'', ''https://host/path/weirdname.conda'')]])]\<rparr>),
         (''docs'', \<lparr>env_packages = None\<rparr>)]\<rparr>"

definition bad_document :: lock_data where
  \<comment> \<open>one \<open>conda\<close> entry whose locator opens a bracket in its host\<close>
  "bad_document =
     \<lparr>environments = Some [(''default'',
        \<lparr>env_packages = Some [(''linux-64'', [ [(''conda'', ''http://['')]])]\<rparr>)]\<rparr>"

definition zlib_record :: "string \<Rightarrow> string \<Rightarrow> string \<Rightarrow> package" where
  "zlib_record v env_name conda_url =
     \<lparr>pkg_name = ''zlib'', pkg_version = v, pkg_environment = env_name,
      pkg_platform = ''linux-64'', pkg_url = conda_url, pkg_ecosystem = ''conda''\<rparr>"

definition dup_packages :: "package list" where
  \<comment> \<open>the same name and version, resolved in two environments\<close>
  "dup_packages =
     [zlib_record ''1.3'' ''default'' ''https://a/zlib-1.3-h1.conda'',
      zlib_record ''1.3'' ''test'' ''https://b/zlib-1.3-h2.conda'']"

definition npm_packages :: "package list" where
  "npm_packages =
     [zlib_record ''1.2'' ''default'' ''https://a/zlib-1.2-h0.conda'',
      zlib_record ''unknown'' ''default'' ''https://a/zlib.conda'',
      zlib_record ''1.3'' ''test'' ''https://b/zlib-1.3-h2.conda'']"

section \<open>Notions used in the statements\<close>

definition url_accepted :: "(string \<Rightarrow> bool) \<Rightarrow> string \<Rightarrow> bool" where
  \<comment> \<open>\<open>urlparse\<close> returns on this locator\<close>
  "url_accepted ck conda_url =
     (case urlparse_path ck conda_url of Inl _ \<Rightarrow> False | Inr _ \<Rightarrow> True)"

definition parsed_record :: "(string \<Rightarrow> bool) \<Rightarrow> package \<Rightarrow> bool" where
  \<comment> \<open>name and version are what the parser gives on the record's locator\<close>
  "parsed_record ck p =
     (extract_package_info ck (pkg_url p) = Inr (pkg_name p, pkg_version p) \<and>
      pkg_ecosystem p = ''conda'')"

definition known_packages :: "package list \<Rightarrow> package list" where
  "known_packages packages = filter (\<lambda>p. pkg_version p \<noteq> ''unknown'') packages"

definition last_with :: "('a \<Rightarrow> 'k) \<Rightarrow> 'k \<Rightarrow> 'a list \<Rightarrow> 'a" where
  \<comment> \<open>the last element of the list whose key is \<open>x\<close>\<close>
  "last_with k x ps = last (filter (\<lambda>q. k q = x) ps)"

definition yields :: "matcher \<Rightarrow> (string \<Rightarrow> bool) \<Rightarrow> bool" where
  \<comment> \<open>every remainder is left after reading a text that satisfies \<open>L\<close>\<close>
  "yields p L = (\<forall>s r. r \<in> set (p s) \<longrightarrow> (\<exists>u. s = u @ r \<and> L u))"

definition stable :: "matcher \<Rightarrow> bool" where
  \<comment> \<open>what follows the text read does not matter\<close>
  "stable p = (\<forall>s r t. r \<in> set (p s) \<longrightarrow> r @ t \<in> set (p (s @ t)))"

definition digits :: "string \<Rightarrow> bool" where
  "digits u = (u \<noteq> [] \<and> list_all is_digit u)"

definition plain :: "string \<Rightarrow> bool" where
  "plain u = (CHR ''-'' \<notin> set u \<and> CHR 0x0A \<notin> set u)"

definition version_text :: "string \<Rightarrow> bool" where
  "version_text v = (v \<noteq> [] \<and> is_digit (hd v) \<and> CHR ''-'' \<notin> set v \<and> CHR 0x0A \<notin> set v)"

definition version_shaped :: "string \<Rightarrow> bool" where
  \<comment> \<open>the whole of \<open>v\<close> matches \<open>\d+(?:\.\d+)*(?:\w+)?\<close>\<close>
  "version_shaped v = ([] \<in> set (version_re v))"

definition line_ok :: "string \<Rightarrow> bool" where
  \<comment> \<open>\<open>.*$\<close> matches the whole text: no line feed but possibly the last character\<close>
  "line_ok t = (CHR 0x0A \<notin> set (butlast t))"

definition matches_after :: "string \<Rightarrow> string \<Rightarrow> (string \<times> string) list" where
  \<comment> \<open>the matches of the primary pattern whose group 1 ends where \<open>r1\<close> begins\<close>
  "matches_after s r1 =
     concat (map (\<lambda>r2.
         concat (map (\<lambda>r3.
           map (\<lambda>_. (consumed s r1, consumed r2 r3)) (tail_re r3))
           (version_re r2)))
         (re_chr (\<lambda>c. c = CHR ''-'') r1))"

definition match_shape :: "string \<Rightarrow> string \<Rightarrow> string \<Rightarrow> bool" where
  \<comment> \<open>\<open>s\<close> is \<open>n-v-rest\<close>: a non-empty name on one line, a segment that starts
      with a digit, and a rest\<close>
  "match_shape s n v =
     (\<exists>rest. s = n @ ''-'' @ v @ ''-'' @ rest \<and> n \<noteq> [] \<and> CHR 0x0A \<notin> set n \<and>
        version_text v \<and> line_ok rest)"

section \<open>The extraction as a relation between a document and the outcome of a run\<close>

text \<open>
  Lines 58 to 85 once more, as the runs they allow: one rule for each way a line can go.
  A loop over a dict takes its items in insertion order, the order of the association
  list; a loop over a list takes its elements in order. The outcome of a run is the
  value returned or the exception raised, with the lines printed.
\<close>

inductive entries_run ::
  "(string \<Rightarrow> bool) \<Rightarrow> string \<Rightarrow> string \<Rightarrow> package_entry list \<Rightarrow> package list \<Rightarrow>
     error + package list \<Rightarrow> bool"
  for ck :: "string \<Rightarrow> bool" and env_name :: string and platform :: string
where
  entries_end: "entries_run ck env_name platform [] packages (Inr packages)"
| entries_skip:
    "map_of package_entry ''conda'' = None \<Longrightarrow>
     entries_run ck env_name platform rest packages out \<Longrightarrow>
     entries_run ck env_name platform (package_entry # rest) packages out"
| entries_raise:
    "map_of package_entry ''conda'' = Some conda_url \<Longrightarrow>
     extract_package_info ck conda_url = Inl e \<Longrightarrow>
     entries_run ck env_name platform (package_entry # rest) packages (Inl e)"
| entries_append:
    "map_of package_entry ''conda'' = Some conda_url \<Longrightarrow>
     extract_package_info ck conda_url = Inr nv \<Longrightarrow>
     entries_run ck env_name platform rest
       (packages @ [make_package env_name platform conda_url nv]) out \<Longrightarrow>
     entries_run ck env_name platform (package_entry # rest) packages out"

inductive platforms_run ::
  "(string \<Rightarrow> bool) \<Rightarrow> string \<Rightarrow> (string \<times> package_entry list) list \<Rightarrow> package list \<Rightarrow>
     error + package list \<Rightarrow> bool"
  for ck :: "string \<Rightarrow> bool" and env_name :: string
where
  platforms_end: "platforms_run ck env_name [] packages (Inr packages)"
| platforms_raise:
    "entries_run ck env_name platform platform_packages packages (Inl e) \<Longrightarrow>
     platforms_run ck env_name ((platform, platform_packages) # rest) packages (Inl e)"
| platforms_next:
    "entries_run ck env_name platform platform_packages packages (Inr packages') \<Longrightarrow>
     platforms_run ck env_name rest packages' out \<Longrightarrow>
     platforms_run ck env_name ((platform, platform_packages) # rest) packages out"

inductive environments_run ::
  "(string \<Rightarrow> bool) \<Rightarrow> (string \<times> env_data) list \<Rightarrow> package list \<Rightarrow> error + package list \<Rightarrow> bool"
  for ck :: "string \<Rightarrow> bool"
where
  environments_end: "environments_run ck [] packages (Inr packages)"
| environments_continue:
    "env_packages ed = None \<Longrightarrow>
     environments_run ck rest packages out \<Longrightarrow>
     environments_run ck ((env_name, ed) # rest) packages out"
| environments_raise:
    "env_packages ed = Some platforms \<Longrightarrow>
     platforms_run ck env_name platforms packages (Inl e) \<Longrightarrow>
     environments_run ck ((env_name, ed) # rest) packages (Inl e)"
| environments_next:
    "env_packages ed = Some platforms \<Longrightarrow>
     platforms_run ck env_name platforms packages (Inr packages') \<Longrightarrow>
     environments_run ck rest packages' out \<Longrightarrow>
     environments_run ck ((env_name, ed) # rest) packages out"

inductive extraction_run ::
  "(string \<Rightarrow> bool) \<Rightarrow> lock_data \<Rightarrow> (error + package list) \<times> string list \<Rightarrow> bool"
  for ck :: "string \<Rightarrow> bool" and data :: lock_data
where
  run_no_environments:
    "environments data = None \<Longrightarrow> extraction_run ck data (Inr [], [no_environments_message])"
| run_environments:
    "environments data = Some envs \<Longrightarrow>
     environments_run ck envs [] out \<Longrightarrow>
     extraction_run ck data (out, [])"

section \<open>Iterating over the document\<close>

text \<open>
  Each loop appends to the list it is given the records of the tagged entries it
  passes, in order, and raises exactly when \<open>urlparse\<close> raises on one of them.
\<close>

lemma error_unique [simp]: "(a :: error) = b"
  by (cases a, cases b) simp

lemma entry_triples_None [simp]: "map_of x ''conda'' = None \<Longrightarrow> entry_triples e pl x = []"
  by (simp add: entry_triples_def)

lemma entry_triples_Some [simp]: "map_of x ''conda'' = Some u \<Longrightarrow> entry_triples e pl x = [(u, e, pl)]"
  by (simp add: entry_triples_def)

lemma env_triples_None [simp]: "env_packages ed = None \<Longrightarrow> env_triples (e, ed) = []"
  by (simp add: env_triples_def)

lemma env_triples_Some [simp]: "env_packages ed = Some ps \<Longrightarrow>
  env_triples (e, ed) = concat (map (\<lambda>pp. concat (map (entry_triples e (fst pp)) (snd pp))) ps)"
  by (simp add: env_triples_def)

lemma extract_package_info_Inl:
  "(extract_package_info ck u = Inl e) = (\<not> url_accepted ck u)"
  by (auto simp: extract_package_info_def cleaned_filename_def url_accepted_def split: sum.splits)

lemma extract_package_info_Inr:
  "extract_package_info ck u = Inr nv \<Longrightarrow> url_accepted ck u"
  by (auto simp: extract_package_info_def cleaned_filename_def url_accepted_def split: sum.splits)

lemma make_package_parsed:
  "extract_package_info ck u = Inr nv \<Longrightarrow> parsed_record ck (make_package e p u nv)"
  by (simp add: parsed_record_def make_package_def)

lemma triple_of_make_package [simp]:
  "triple_of (make_package e p u nv) = (u, e, p)"
  by (simp add: triple_of_def make_package_def)

lemma entries_loop_Inr:
  "entries_loop ck e pl es acc = Inr r \<Longrightarrow>
     \<exists>new. r = acc @ new \<and> map triple_of new = concat (map (entry_triples e pl) es) \<and>
       list_all (parsed_record ck) new"
proof (induction es arbitrary: acc)
  case Nil
  then show ?case by simp
next
  case (Cons x es)
  show ?case
  proof (cases "map_of x ''conda''")
    case None
    with Cons show ?thesis by simp
  next
    case (Some u)
    with Cons.prems obtain nv where nv: "extract_package_info ck u = Inr nv"
      and r: "entries_loop ck e pl es (acc @ [make_package e pl u nv]) = Inr r"
      by (auto split: sum.splits)
    from Cons.IH [OF r] obtain new where
      "r = (acc @ [make_package e pl u nv]) @ new"
      "map triple_of new = concat (map (entry_triples e pl) es)"
      "list_all (parsed_record ck) new" by blast
    then show ?thesis using Some nv
      by (intro exI [of _ "make_package e pl u nv # new"])
         (simp add: make_package_parsed)
  qed
qed

lemma entries_loop_Inl:
  "(entries_loop ck e pl es acc = Inl err) =
     (\<exists>t \<in> set (concat (map (entry_triples e pl) es)). \<not> url_accepted ck (fst t))"
proof (induction es arbitrary: acc)
  case Nil
  then show ?case by simp
next
  case (Cons x es)
  show ?case
  proof (cases "map_of x ''conda''")
    case None
    with Cons show ?thesis by simp
  next
    case (Some u)
    show ?thesis
    proof (cases "extract_package_info ck u")
      case (Inl a)
      then have "\<not> url_accepted ck u" by (simp add: extract_package_info_Inl)
      with Some Inl show ?thesis by simp
    next
      case (Inr nv)
      then have "url_accepted ck u" by (rule extract_package_info_Inr)
      with Some Inr Cons.IH show ?thesis by simp
    qed
  qed
qed

lemma platforms_loop_Inr:
  "platforms_loop ck e ps acc = Inr r \<Longrightarrow>
     \<exists>new. r = acc @ new \<and>
       map triple_of new = concat (map (\<lambda>pp. concat (map (entry_triples e (fst pp)) (snd pp))) ps) \<and>
       list_all (parsed_record ck) new"
proof (induction ps arbitrary: acc)
  case Nil
  then show ?case by simp
next
  case (Cons pp ps)
  obtain pl es where pp: "pp = (pl, es)" by (cases pp)
  with Cons.prems obtain mid where mid: "entries_loop ck e pl es acc = Inr mid"
    and r: "platforms_loop ck e ps mid = Inr r"
    by (auto split: sum.splits)
  from entries_loop_Inr [OF mid] obtain n1 where n1: "mid = acc @ n1"
    "map triple_of n1 = concat (map (entry_triples e pl) es)" "list_all (parsed_record ck) n1"
    by blast
  from Cons.IH [OF r] obtain n2 where n2: "r = mid @ n2"
    "map triple_of n2 = concat (map (\<lambda>pp. concat (map (entry_triples e (fst pp)) (snd pp))) ps)"
    "list_all (parsed_record ck) n2"
    by blast
  show ?case using n1 n2 pp
    by (intro exI [of _ "n1 @ n2"]) simp
qed

lemma platforms_loop_Inl:
  "(platforms_loop ck e ps acc = Inl err) =
     (\<exists>t \<in> set (concat (map (\<lambda>pp. concat (map (entry_triples e (fst pp)) (snd pp))) ps)).
        \<not> url_accepted ck (fst t))"
proof (induction ps arbitrary: acc)
  case Nil
  then show ?case by simp
next
  case (Cons pp ps)
  obtain pl es where pp: "pp = (pl, es)" by (cases pp)
  show ?case
  proof (cases "entries_loop ck e pl es acc")
    case (Inl a)
    then have "\<exists>t \<in> set (concat (map (entry_triples e pl) es)). \<not> url_accepted ck (fst t)"
      by (simp add: entries_loop_Inl)
    with Inl pp show ?thesis by auto
  next
    case (Inr mid)
    then have "\<not> (\<exists>t \<in> set (concat (map (entry_triples e pl) es)). \<not> url_accepted ck (fst t))"
      using entries_loop_Inl [of ck e pl es acc ValueError] by simp
    with Inr pp Cons.IH [of mid] show ?thesis by auto
  qed
qed

lemma environments_loop_Inr:
  "environments_loop ck envs acc = Inr r \<Longrightarrow>
     \<exists>new. r = acc @ new \<and> map triple_of new = concat (map env_triples envs) \<and>
       list_all (parsed_record ck) new"
proof (induction envs arbitrary: acc)
  case Nil
  then show ?case by simp
next
  case (Cons x envs)
  obtain e ed where x: "x = (e, ed)" by (cases x)
  show ?case
  proof (cases "env_packages ed")
    case None
    with Cons x show ?thesis by simp
  next
    case (Some ps)
    with Cons.prems x obtain mid where mid: "platforms_loop ck e ps acc = Inr mid"
      and r: "environments_loop ck envs mid = Inr r"
      by (auto split: sum.splits)
    from platforms_loop_Inr [OF mid] obtain n1 where n1: "mid = acc @ n1"
      "map triple_of n1 = concat (map (\<lambda>pp. concat (map (entry_triples e (fst pp)) (snd pp))) ps)"
      "list_all (parsed_record ck) n1"
      by blast
    from Cons.IH [OF r] obtain n2 where n2: "r = mid @ n2"
      "map triple_of n2 = concat (map env_triples envs)" "list_all (parsed_record ck) n2"
      by blast
    show ?thesis using n1 n2 x Some
      by (intro exI [of _ "n1 @ n2"]) simp
  qed
qed

lemma environments_loop_Inl:
  "(environments_loop ck envs acc = Inl err) =
     (\<exists>t \<in> set (concat (map env_triples envs)). \<not> url_accepted ck (fst t))"
proof (induction envs arbitrary: acc)
  case Nil
  then show ?case by simp
next
  case (Cons x envs)
  obtain e ed where x: "x = (e, ed)" by (cases x)
  show ?case
  proof (cases "env_packages ed")
    case None
    with Cons x show ?thesis by simp
  next
    case (Some ps)
    show ?thesis
    proof (cases "platforms_loop ck e ps acc")
      case (Inl a)
      then have "\<exists>t \<in> set (concat (map (\<lambda>pp. concat (map (entry_triples e (fst pp)) (snd pp))) ps)).
        \<not> url_accepted ck (fst t)"
        by (simp add: platforms_loop_Inl)
      with Inl x Some show ?thesis by auto
    next
      case (Inr mid)
      then have "\<not> (\<exists>t \<in> set (concat (map (\<lambda>pp. concat (map (entry_triples e (fst pp)) (snd pp))) ps)).
        \<not> url_accepted ck (fst t))"
        using platforms_loop_Inl [of ck e ps acc ValueError] by simp
      with Inr x Some Cons.IH [of mid] show ?thesis by (simp add: bex_Un)
    qed
  qed
qed

text \<open>
  The rules of a run leave no choice: by induction on one run and inversion of the
  other, two runs from the same list and the same records end alike. The functions
  above compute an outcome that is a run, so every document has one.
\<close>

inductive_cases entries_run_NilE: "entries_run ck e pl [] acc out"
inductive_cases entries_run_ConsE: "entries_run ck e pl (x # xs) acc out"
inductive_cases platforms_run_NilE: "platforms_run ck e [] acc out"
inductive_cases platforms_run_ConsE: "platforms_run ck e (x # xs) acc out"
inductive_cases environments_run_NilE: "environments_run ck [] acc out"
inductive_cases environments_run_ConsE: "environments_run ck (x # xs) acc out"

lemma entries_run_deterministic:
  "entries_run ck e pl es acc out \<Longrightarrow> entries_run ck e pl es acc out' \<Longrightarrow> out' = out"
proof (induction arbitrary: out' rule: entries_run.induct)
  case (entries_end packages)
  then show ?case by (auto elim: entries_run_NilE)
next
  case (entries_skip package_entry rest packages out)
  from entries_skip.prems entries_skip.hyps(1) show ?case
    by (auto elim!: entries_run_ConsE intro: entries_skip.IH)
next
  case (entries_raise package_entry conda_url e rest packages)
  from entries_raise.prems entries_raise.hyps show ?case
    by (auto elim!: entries_run_ConsE)
next
  case (entries_append package_entry conda_url nv rest packages out)
  from entries_append.prems entries_append.hyps(1,2) show ?case
    by (auto elim!: entries_run_ConsE intro: entries_append.IH)
qed

lemma platforms_run_deterministic:
  "platforms_run ck e ps acc out \<Longrightarrow> platforms_run ck e ps acc out' \<Longrightarrow> out' = out"
proof (induction arbitrary: out' rule: platforms_run.induct)
  case (platforms_end packages)
  then show ?case by (auto elim: platforms_run_NilE)
next
  case (platforms_raise platform platform_packages packages e rest)
  from platforms_raise.prems show ?case
    by (auto elim!: platforms_run_ConsE dest: entries_run_deterministic [OF platforms_raise.hyps])
next
  case (platforms_next platform platform_packages packages packages' rest out)
  from platforms_next.prems show ?case
    by (auto elim!: platforms_run_ConsE dest: entries_run_deterministic [OF platforms_next.hyps(1)]
        intro: platforms_next.IH)
qed

lemma environments_run_deterministic:
  "environments_run ck envs acc out \<Longrightarrow> environments_run ck envs acc out' \<Longrightarrow> out' = out"
proof (induction arbitrary: out' rule: environments_run.induct)
  case (environments_end packages)
  then show ?case by (auto elim: environments_run_NilE)
next
  case (environments_continue ed rest packages out env_name)
  from environments_continue.prems environments_continue.hyps(1) show ?case
    by (auto elim!: environments_run_ConsE intro: environments_continue.IH)
next
  case (environments_raise ed platforms env_name packages e rest)
  from environments_raise.prems environments_raise.hyps(1) show ?case
    by (auto elim!: environments_run_ConsE
        dest: platforms_run_deterministic [OF environments_raise.hyps(2)])
next
  case (environments_next ed platforms env_name packages packages' rest out)
  from environments_next.prems environments_next.hyps(1)
  have "(\<exists>e. out' = Inl e \<and> platforms_run ck env_name platforms packages (Inl e)) \<or>
        (\<exists>p. platforms_run ck env_name platforms packages (Inr p) \<and>
             environments_run ck rest p out')"
    by (auto elim!: environments_run_ConsE)
  then show ?case
  proof (elim disjE exE conjE)
    fix e assume "platforms_run ck env_name platforms packages (Inl e)"
    from platforms_run_deterministic [OF environments_next.hyps(2) this] show ?thesis by simp
  next
    fix p assume p: "platforms_run ck env_name platforms packages (Inr p)"
      and r: "environments_run ck rest p out'"
    from platforms_run_deterministic [OF environments_next.hyps(2) p] have "p = packages'" by simp
    with r show ?thesis by (simp add: environments_next.IH)
  qed
qed

lemma entries_loop_runs: "entries_run ck e pl es acc (entries_loop ck e pl es acc)"
proof (induction es arbitrary: acc)
  case Nil
  show ?case by (simp add: entries_end)
next
  case (Cons x es)
  show ?case
  proof (cases "map_of x ''conda''")
    case None
    with Cons [of acc] show ?thesis by (simp add: entries_skip)
  next
    case (Some u)
    show ?thesis
    proof (cases "extract_package_info ck u")
      case (Inl a)
      with Some show ?thesis by (simp add: entries_raise)
    next
      case (Inr nv)
      with Some Cons [of "acc @ [make_package e pl u nv]"] show ?thesis
        by (simp add: entries_append)
    qed
  qed
qed

lemma platforms_loop_runs: "platforms_run ck e ps acc (platforms_loop ck e ps acc)"
proof (induction ps arbitrary: acc)
  case Nil
  show ?case by (simp add: platforms_end)
next
  case (Cons pp ps)
  obtain pl es where pp: "pp = (pl, es)" by (cases pp)
  show ?case
  proof (cases "entries_loop ck e pl es acc")
    case (Inl a)
    with entries_loop_runs [of ck e pl es acc] pp show ?thesis
      by (simp add: platforms_raise)
  next
    case (Inr mid)
    with entries_loop_runs [of ck e pl es acc] Cons [of mid] pp show ?thesis
      by (simp add: platforms_next)
  qed
qed

lemma environments_loop_runs: "environments_run ck envs acc (environments_loop ck envs acc)"
proof (induction envs arbitrary: acc)
  case Nil
  show ?case by (simp add: environments_end)
next
  case (Cons x envs)
  obtain e ed where x: "x = (e, ed)" by (cases x)
  show ?case
  proof (cases "env_packages ed")
    case None
    with Cons [of acc] x show ?thesis by (simp add: environments_continue)
  next
    case (Some ps)
    show ?thesis
    proof (cases "platforms_loop ck e ps acc")
      case (Inl a)
      with platforms_loop_runs [of ck e ps acc] Some x show ?thesis
        by (simp add: environments_raise)
    next
      case (Inr mid)
      with platforms_loop_runs [of ck e ps acc] Cons [of mid] Some x show ?thesis
        by (simp add: environments_next)
    qed
  qed
qed

lemma extraction_runs: "extraction_run ck data (extract_packages_from_pixi_lock ck data)"
  by (cases "environments data")
     (simp_all add: extract_packages_from_pixi_lock_def run_no_environments
        run_environments environments_loop_runs)

section \<open>Dictionaries filled by a loop\<close>

text \<open>
  A dict filled by assignments in a loop: its keys are the keys assigned, each once, and
  under a key stands the value assigned last.
\<close>

lemma fold_update_map_of:
  "map_of (fold (\<lambda>p. AList.update (k p) (v p)) ps d) x =
     (if filter (\<lambda>q. k q = x) ps = [] then map_of d x else Some (v (last_with k x ps)))"
  by (induction ps rule: rev_induct) (simp_all add: update_conv' last_with_def)

lemma fold_update_keys:
  "fst ` set (fold (\<lambda>p. AList.update (k p) (v p)) ps d) = fst ` set d \<union> k ` set ps"
  by (induction ps rule: rev_induct) (auto simp: dom_update)

lemma fold_update_distinct:
  "distinct (map fst d) \<Longrightarrow> distinct (map fst (fold (\<lambda>p. AList.update (k p) (v p)) ps d))"
  by (induction ps rule: rev_induct) (simp_all add: distinct_update)

lemma fold_update_length:
  "length (fold (\<lambda>p. AList.update (k p) (v p)) ps []) = card (k ` set ps)"
proof -
  let ?d = "fold (\<lambda>p. AList.update (k p) (v p)) ps []"
  have "distinct (map fst ?d)" by (rule fold_update_distinct) simp
  then have "length (map fst ?d) = card (set (map fst ?d))" by (simp only: distinct_card)
  also have "set (map fst ?d) = k ` set ps" using fold_update_keys [of k v ps "[]"] by simp
  finally show ?thesis by simp
qed

lemma osv_fold: "fold osv_store ps d = fold (\<lambda>p. AList.update (pkg_key p) (osv_entry_of p)) ps d"
  by (simp add: osv_store_def [abs_def])

lemma npm_fold:
  "fold npm_store ps l =
     \<lparr>root_dependencies = fold (\<lambda>p. AList.update (pkg_name p) (pkg_version p)) (known_packages ps) (root_dependencies l),
      dependencies = fold (\<lambda>p. AList.update (pkg_name p) (npm_dependency_of p)) (known_packages ps) (dependencies l)\<rparr>"
  by (induction ps arbitrary: l) (simp_all add: npm_store_def known_packages_def)

lemma last_with_in: "filter (\<lambda>q. k q = x) ps \<noteq> [] \<Longrightarrow> last_with k x ps \<in> set ps \<and> k (last_with k x ps) = x"
  unfolding last_with_def using last_in_set [of "filter (\<lambda>q. k q = x) ps"] by auto

lemma append_sep_inj:
  assumes "c \<notin> set a" "c \<notin> set b" "a @ c # x = b @ c # y"
  shows "a = b \<and> x = y"
proof -
  have t: "c \<notin> set u \<Longrightarrow> takeWhile (\<lambda>z. z \<noteq> c) (u @ c # w) = u" for u w
    by (induction u) auto
  have "takeWhile (\<lambda>z. z \<noteq> c) (a @ c # x) = a" using assms(1) by (rule t)
  moreover have "takeWhile (\<lambda>z. z \<noteq> c) (b @ c # y) = b" using assms(2) by (rule t)
  ultimately have "a = b" using assms(3) by simp
  with assms(3) show ?thesis by simp
qed

lemma pkg_key_inj:
  "CHR ''@'' \<notin> set (pkg_name p) \<Longrightarrow> CHR ''@'' \<notin> set (pkg_name q) \<Longrightarrow> pkg_key p = pkg_key q \<Longrightarrow>
     pkg_name p = pkg_name q \<and> pkg_version p = pkg_version q"
  using append_sep_inj [of "CHR ''@''" "pkg_name p" "pkg_name q" "pkg_version p" "pkg_version q"]
  by (simp add: pkg_key_def)

section \<open>What the patterns read\<close>

text \<open>
  Two facts about a pattern: what the text it has read looks like (\<open>yields\<close>), and
  that it reads the same whatever follows (\<open>stable\<close>). For a character class, the
  lazy and the greedy repetition are the lists of the suffixes, in opposite orders.
\<close>

lemma yieldsD: "yields p L \<Longrightarrow> r \<in> set (p s) \<Longrightarrow> \<exists>u. s = u @ r \<and> L u"
  by (simp add: yields_def)

lemma yields_weaken: "yields p L \<Longrightarrow> (\<And>u. L u \<Longrightarrow> L' u) \<Longrightarrow> yields p L'"
  unfolding yields_def by blast

lemma yields_chr: "yields (re_chr P) (\<lambda>u. \<exists>c. u = [c] \<and> P c)"
  by (auto simp: yields_def re_chr_def split: list.splits if_splits)

lemma yields_seq:
  assumes "yields p L1" "yields q L2"
  shows "yields (re_seq p q) (\<lambda>u. \<exists>a b. u = a @ b \<and> L1 a \<and> L2 b)"
  unfolding yields_def
proof (intro allI impI)
  fix s r assume "r \<in> set (re_seq p q s)"
  then obtain m where m: "m \<in> set (p s)" and r: "r \<in> set (q m)"
    by (auto simp: re_seq_def)
  from yieldsD [OF assms(1) m] obtain a where a: "s = a @ m" "L1 a" by blast
  from yieldsD [OF assms(2) r] obtain b where b: "m = b @ r" "L2 b" by blast
  from a b show "\<exists>u. s = u @ r \<and> (\<exists>a b. u = a @ b \<and> L1 a \<and> L2 b)"
    by (intro exI [of _ "a @ b"]) auto
qed

lemma yields_opt: "yields p L \<Longrightarrow> yields (re_opt p) (\<lambda>u. u = [] \<or> L u)"
  by (auto simp: yields_def re_opt_def)

lemma yields_star:
  assumes p: "yields p L" and nil: "K []" and step: "\<And>a b. L a \<Longrightarrow> K b \<Longrightarrow> K (a @ b)"
  shows "yields (re_star p) K"
proof -
  have "r \<in> set (re_star p s) \<Longrightarrow> \<exists>u. s = u @ r \<and> K u" for s r
  proof (induction "length s" arbitrary: s r rule: less_induct)
    case less
    from less.prems have "r = s \<or> (\<exists>m \<in> set (p s). length m < length s \<and> r \<in> set (re_star p m))"
      by (subst (asm) re_star.simps) auto
    then show ?case
    proof
      assume "r = s" with nil show ?thesis by simp
    next
      assume "\<exists>m \<in> set (p s). length m < length s \<and> r \<in> set (re_star p m)"
      then obtain m where m: "m \<in> set (p s)" "length m < length s" "r \<in> set (re_star p m)" by blast
      from less.hyps [OF m(2,3)] obtain b where b: "m = b @ r" "K b" by auto
      from yieldsD [OF p m(1)] obtain a where a: "s = a @ m" "L a" by blast
      from a b step [of a b] show ?thesis
        by (intro exI [of _ "a @ b"]) simp
    qed
  qed
  then show ?thesis by (simp add: yields_def)
qed

lemma is_digit_word: "is_digit c \<Longrightarrow> is_word c"
  by (simp add: is_digit_def is_word_def Let_def)

lemma not_word_hyphen [simp]: "\<not> is_word CHR ''-''" "\<not> is_word CHR 0x0A"
  by (simp_all add: is_word_def)

lemma not_digit_hyphen [simp]: "\<not> is_digit CHR ''-''" "\<not> is_digit CHR 0x0A"
  by (simp_all add: is_digit_def)

lemma yields_plus:
  assumes "yields p L" and "\<And>a. L a \<Longrightarrow> K a" and "\<And>a b. L a \<Longrightarrow> K b \<Longrightarrow> K (a @ b)"
  shows "yields (re_plus p) K"
proof -
  have "yields (re_star p) (\<lambda>u. u = [] \<or> K u)"
    using assms by (intro yields_star [OF assms(1)]) auto
  from yields_seq [OF assms(1) this] show ?thesis
    unfolding re_plus_def by (rule yields_weaken) (use assms(2,3) in auto)
qed

lemma yields_digits: "yields (re_plus (re_chr is_digit)) digits"
  by (rule yields_plus [OF yields_chr]) (auto simp: digits_def)

lemma yields_words: "yields (re_plus (re_chr is_word)) (\<lambda>u. list_all is_word u)"
  by (rule yields_plus [OF yields_chr]) auto

lemma digits_plain: "digits u \<Longrightarrow> plain u"
  by (auto simp: digits_def plain_def list_all_iff)

lemma version_textI: "digits d \<Longrightarrow> plain g \<Longrightarrow> plain w \<Longrightarrow> version_text (d @ g @ w)"
  using digits_plain [of d]
  by (cases d) (auto simp: version_text_def digits_def plain_def)

lemma yields_version: "yields version_re version_text"
proof -
  have g: "yields (re_seq (re_chr (\<lambda>c. c = CHR ''.'')) (re_plus (re_chr is_digit))) plain"
    by (rule yields_weaken [OF yields_seq [OF yields_chr yields_digits]])
       (auto simp: plain_def dest: digits_plain)
  have s: "yields (re_star (re_seq (re_chr (\<lambda>c. c = CHR ''.'')) (re_plus (re_chr is_digit)))) plain"
    by (rule yields_star [OF g]) (auto simp: plain_def)
  have w: "yields (re_opt (re_plus (re_chr is_word))) plain"
    by (rule yields_weaken [OF yields_opt [OF yields_words]]) (auto simp: plain_def list_all_iff)
  show ?thesis unfolding version_re_def
    by (rule yields_weaken [OF yields_seq [OF yields_digits yields_seq [OF s w]]])
       (auto intro: version_textI)
qed

lemma re_star_lazy_chr:
  "re_star_lazy (re_chr P) s = map (\<lambda>k. drop k s) [0..<Suc (length (takeWhile P s))]"
proof (induction s)
  case Nil
  show ?case by (subst re_star_lazy.simps) (simp add: re_chr_def)
next
  case (Cons c t)
  show ?case
  proof (cases "P c")
    case True
    have "re_star_lazy (re_chr P) (c # t) = (c # t) # re_star_lazy (re_chr P) t"
      using True by (subst re_star_lazy.simps) (simp add: re_chr_def)
    also have "\<dots> = (c # t) # map (\<lambda>k. drop k t) [0..<Suc (length (takeWhile P t))]"
      by (simp only: Cons.IH)
    also have "\<dots> = map (\<lambda>k. drop k (c # t)) [0..<Suc (Suc (length (takeWhile P t)))]"
      by (subst (2) upt_rec) (simp add: map_Suc_upt [symmetric] del: upt_Suc)
    finally show ?thesis using True by simp
  next
    case False
    then show ?thesis by (subst re_star_lazy.simps) (simp add: re_chr_def)
  qed
qed

lemma re_plus_lazy_chr:
  "re_plus_lazy (re_chr P) s = map (\<lambda>k. drop k s) [1..<Suc (length (takeWhile P s))]"
proof (cases s)
  case Nil
  then show ?thesis by (simp add: re_plus_lazy_def re_seq_def re_chr_def)
next
  case (Cons c t)
  show ?thesis
  proof (cases "P c")
    case True
    have "re_plus_lazy (re_chr P) (c # t) = map (\<lambda>k. drop k t) [0..<Suc (length (takeWhile P t))]"
      using True by (simp add: re_plus_lazy_def re_seq_def re_chr_def re_star_lazy_chr)
    also have "\<dots> = map (\<lambda>k. drop k (c # t)) [1..<Suc (Suc (length (takeWhile P t)))]"
      by (simp add: map_Suc_upt [symmetric] del: upt_Suc)
    finally show ?thesis using True Cons by simp
  next
    case False
    then show ?thesis using Cons by (simp add: re_plus_lazy_def re_seq_def re_chr_def)
  qed
qed

lemma re_star_chr_Cons:
  "re_star (re_chr P) (c # t) = (if P c then re_star (re_chr P) t @ [c # t] else [c # t])"
  by (subst re_star.simps) (simp add: re_chr_def)

lemma re_star_chr_Nil: "re_star (re_chr P) [] = [ []]"
  by (subst re_star.simps) (simp add: re_chr_def)

lemma eol_after_any: "(\<exists>r \<in> set (re_star (re_chr is_any) t). re_eol r \<noteq> []) = line_ok t"
proof (induction t)
  case Nil
  show ?case by (simp add: re_star_chr_Nil re_eol_def line_ok_def)
next
  case (Cons c t)
  show ?case
  proof (cases "is_any c")
    case True
    then have "re_eol (c # t) = []" by (simp add: re_eol_def is_any_def)
    moreover have "line_ok (c # t) = line_ok t" using True by (simp add: line_ok_def is_any_def)
    ultimately show ?thesis using True Cons by (simp add: re_star_chr_Cons bex_Un)
  next
    case False
    then show ?thesis by (simp add: re_star_chr_Cons re_eol_def line_ok_def is_any_def)
  qed
qed

lemma tail_re_nonempty: "(tail_re r \<noteq> []) = (\<exists>t. r = CHR ''-'' # t \<and> line_ok t)"
proof (cases r)
  case Nil
  then show ?thesis by (simp add: tail_re_def re_seq_def re_chr_def)
next
  case (Cons c t)
  show ?thesis
  proof (cases "c = CHR ''-''")
    case True
    have "(tail_re (CHR ''-'' # t) \<noteq> []) = (\<exists>r \<in> set (re_star (re_chr is_any) t). re_eol r \<noteq> [])"
      by (simp add: tail_re_def re_seq_def re_chr_def)
    then show ?thesis using True Cons by (simp add: eol_after_any)
  next
    case False
    then show ?thesis using Cons by (simp add: tail_re_def re_seq_def re_chr_def)
  qed
qed

lemma line_ok_suffix: "line_ok (a @ b) \<Longrightarrow> line_ok b"
  by (cases "b = []") (auto simp: line_ok_def butlast_append)

lemma stableD: "stable p \<Longrightarrow> r \<in> set (p s) \<Longrightarrow> r @ t \<in> set (p (s @ t))"
  by (simp add: stable_def)

lemma stable_chr: "stable (re_chr P)"
  by (auto simp: stable_def re_chr_def split: list.splits if_splits)

lemma stable_seq: "stable p \<Longrightarrow> stable q \<Longrightarrow> stable (re_seq p q)"
  unfolding stable_def re_seq_def by fastforce

lemma stable_opt: "stable p \<Longrightarrow> stable (re_opt p)"
  by (auto simp: stable_def re_opt_def)

lemma stable_star:
  assumes "stable p"
  shows "stable (re_star p)"
proof -
  have "r \<in> set (re_star p s) \<Longrightarrow> r @ t \<in> set (re_star p (s @ t))" for s r t
  proof (induction "length s" arbitrary: s r rule: less_induct)
    case less
    from less.prems have "r = s \<or> (\<exists>m \<in> set (p s). length m < length s \<and> r \<in> set (re_star p m))"
      by (subst (asm) re_star.simps) auto
    then show ?case
    proof
      assume "r = s" then show ?thesis by (subst re_star.simps) simp
    next
      assume "\<exists>m \<in> set (p s). length m < length s \<and> r \<in> set (re_star p m)"
      then obtain m where m: "m \<in> set (p s)" "length m < length s" "r \<in> set (re_star p m)" by blast
      from less.hyps [OF m(2,3)] have "r @ t \<in> set (re_star p (m @ t))" .
      moreover from stableD [OF assms m(1)] have "m @ t \<in> set (p (s @ t))" .
      ultimately show ?thesis using m(2) by (subst re_star.simps) auto
    qed
  qed
  then show ?thesis by (simp add: stable_def)
qed

lemma stable_plus: "stable p \<Longrightarrow> stable (re_plus p)"
  unfolding re_plus_def by (intro stable_seq stable_star)

lemma stable_version: "stable version_re"
  unfolding version_re_def
  by (intro stable_seq stable_star stable_plus stable_opt stable_chr)

lemma version_shaped_extends: "version_shaped v \<Longrightarrow> t \<in> set (version_re (v @ t))"
  using stableD [OF stable_version, of "[]" v t] by (simp add: version_shaped_def)

lemma version_shaped_text: "version_shaped v \<Longrightarrow> version_text v"
  using yieldsD [OF yields_version, of "[]" v] by (auto simp: version_shaped_def)

section \<open>The primary match and the fallback\<close>

text \<open>
  The matches of the primary pattern are found name by name, the shortest name first;
  the first match is the one \<open>re.match\<close> returns.
\<close>

lemma primary_matches_alt:
  "primary_matches s = concat (map (matches_after s) (re_plus_lazy (re_chr is_any) s))"
  by (simp add: primary_matches_def matches_after_def [abs_def])

lemma in_const_image: "(y \<in> (\<lambda>_. c) ` A) = (y = c \<and> A \<noteq> {})"
  by auto

lemma in_matches_after:
  "((n, v) \<in> set (matches_after s r1)) =
     (\<exists>r2 r3. r1 = CHR ''-'' # r2 \<and> r3 \<in> set (version_re r2) \<and> tail_re r3 \<noteq> [] \<and>
        n = consumed s r1 \<and> v = consumed r2 r3)"
  by (cases r1) (auto simp: matches_after_def re_chr_def in_const_image)

lemma matches_after_nonempty:
  "(matches_after s r1 \<noteq> []) =
     (\<exists>r2 r3. r1 = CHR ''-'' # r2 \<and> r3 \<in> set (version_re r2) \<and> tail_re r3 \<noteq> [])"
proof -
  have "(matches_after s r1 \<noteq> []) = (\<exists>n v. (n, v) \<in> set (matches_after s r1))"
    by (cases "matches_after s r1") auto
  then show ?thesis by (auto simp: in_matches_after)
qed

lemma concat_map_first:
  "concat (map G ks) = x # xs \<Longrightarrow>
     \<exists>pre k post. ks = pre @ k # post \<and> (\<forall>j \<in> set pre. G j = []) \<and> x \<in> set (G k)"
proof (induction ks)
  case Nil
  then show ?case by simp
next
  case (Cons k ks)
  show ?case
  proof (cases "G k")
    case Nil
    with Cons.prems have "concat (map G ks) = x # xs" by simp
    from Cons.IH [OF this] obtain pre k' post where
      "ks = pre @ k' # post" "\<forall>j \<in> set pre. G j = []" "x \<in> set (G k')" by blast
    with Nil show ?thesis by (intro exI [of _ "k # pre"] exI [of _ k'] exI [of _ post]) simp
  next
    case (Cons y ys)
    with Cons.prems have "x \<in> set (G k)" by simp
    then show ?thesis by (intro exI [of _ "[]"] exI [of _ k] exI [of _ ks]) simp
  qed
qed

lemma consumed_drop: "k \<le> length s \<Longrightarrow> consumed s (drop k s) = take k s"
  by (simp add: consumed_def)

lemma consumed_append [simp]: "consumed (u @ r) r = u"
  by (simp add: consumed_def)

lemma after_drop_shape:
  assumes k: "1 \<le> k" "k \<le> length (takeWhile is_any s)"
    and m: "(n, v) \<in> set (matches_after s (drop k s))"
  shows "n = take k s \<and> match_shape s n v"
proof -
  have kl: "k \<le> length s" using k(2) length_takeWhile_le [of is_any s] by simp
  from m obtain r2 r3 where r: "drop k s = CHR ''-'' # r2" "r3 \<in> set (version_re r2)"
    "tail_re r3 \<noteq> []" "n = consumed s (drop k s)" "v = consumed r2 r3"
    by (auto simp: in_matches_after)
  from yieldsD [OF yields_version r(2)] obtain u where u: "r2 = u @ r3" "version_text u" by blast
  from r(3) obtain rest where rest: "r3 = CHR ''-'' # rest" "line_ok rest"
    by (auto simp: tail_re_nonempty)
  have n: "n = take k s" using r(4) kl by (simp add: consumed_drop)
  have v: "v = u" using r(5) u(1) by simp
  have "s = take k s @ drop k s" by simp
  then have s: "s = n @ ''-'' @ v @ ''-'' @ rest" using n r(1) u(1) rest(1) v by simp
  have "take k s = take k (takeWhile is_any s)"
    using k(2) by (metis append_eq_conv_conj takeWhile_dropWhile_id take_append take_all_iff diff_is_0_eq' take_0 append_Nil2)
  then have "set n \<subseteq> set (takeWhile is_any s)" using n by (metis set_take_subset)
  moreover have "\<forall>c \<in> set (takeWhile is_any s). is_any c" by (auto dest: set_takeWhileD)
  ultimately have nl: "CHR 0x0A \<notin> set n" by (auto simp: is_any_def)
  have "n \<noteq> []" using n k(1) kl by auto
  with s nl u(2) v rest(2) n show ?thesis by (auto simp: match_shape_def)
qed

lemma primary_matches_sound:
  assumes "(n, v) \<in> set (primary_matches s)"
  shows "match_shape s n v"
proof -
  from assms obtain k where k: "k \<in> set [1..<Suc (length (takeWhile is_any s))]"
    and m: "(n, v) \<in> set (matches_after s (drop k s))"
    by (auto simp: primary_matches_alt re_plus_lazy_chr)
  from k have "1 \<le> k" "k \<le> length (takeWhile is_any s)" by auto
  from after_drop_shape [OF this m] show ?thesis by blast
qed

lemma match_shape_line_ok: "match_shape s n v \<Longrightarrow> line_ok s"
proof -
  assume "match_shape s n v"
  then obtain rest where r: "s = n @ ''-'' @ v @ ''-'' @ rest" "CHR 0x0A \<notin> set n"
    "version_text v" "line_ok rest"
    by (auto simp: match_shape_def)
  then show "line_ok s"
    by (cases "rest = []") (auto simp: line_ok_def version_text_def butlast_append)
qed

lemma candidate_matches:
  assumes s: "s = n' @ ''-'' @ v' @ ''-'' @ rest'" and v: "version_shaped v'" and l: "line_ok s"
  shows "matches_after s (drop (length n') s) \<noteq> []"
proof -
  have d: "drop (length n') s = CHR ''-'' # (v' @ CHR ''-'' # rest')" using s by simp
  have "CHR ''-'' # rest' \<in> set (version_re (v' @ CHR ''-'' # rest'))"
    using v by (rule version_shaped_extends)
  moreover have "line_ok rest'"
    using l line_ok_suffix [of "n' @ ''-'' @ v' @ ''-''" rest'] by (simp add: s)
  then have "tail_re (CHR ''-'' # rest') \<noteq> []" by (simp add: tail_re_nonempty)
  ultimately show ?thesis unfolding matches_after_nonempty d by blast
qed

lemma primary_match_first:
  assumes "primary_match s = Some (n, v)"
  shows "\<exists>k. 1 \<le> k \<and> k \<le> length (takeWhile is_any s) \<and> n = take k s \<and>
           (n, v) \<in> set (matches_after s (drop k s)) \<and>
           (\<forall>j. 1 \<le> j \<and> j < k \<longrightarrow> matches_after s (drop j s) = [])"
proof -
  let ?m = "length (takeWhile is_any s)"
  let ?G = "\<lambda>k. matches_after s (drop k s)"
  from assms obtain xs where "primary_matches s = (n, v) # xs"
    by (auto simp: primary_match_def split: list.splits)
  then have "concat (map ?G [1..<Suc ?m]) = (n, v) # xs"
    by (simp add: primary_matches_alt re_plus_lazy_chr comp_def)
  from concat_map_first [OF this] obtain pre k post where
    ks: "[1..<Suc ?m] = pre @ k # post" and pre: "\<forall>j \<in> set pre. ?G j = []"
    and x: "(n, v) \<in> set (?G k)" by blast
  have "k \<in> set [1..<Suc ?m]" unfolding ks by simp
  then have k: "1 \<le> k" "k \<le> ?m" by auto
  have "sorted (pre @ k # post)" using sorted_upt [of 1 "Suc ?m"] by (simp only: ks)
  then have post: "\<forall>y \<in> set post. k \<le> y" by (simp add: sorted_append)
  have "?G j = []" if j: "1 \<le> j" "j < k" for j
  proof -
    from j k have "j \<in> set [1..<Suc ?m]" by auto
    then have "j \<in> set pre \<or> j = k \<or> j \<in> set post" unfolding ks by auto
    with j post have "j \<in> set pre" by auto
    with pre show ?thesis by blast
  qed
  moreover from after_drop_shape [OF k x] have "n = take k s" by simp
  ultimately show ?thesis using k x by blast
qed

lemma split_on_nonempty [simp]: "split_on c s \<noteq> []"
  by (induction s) (auto split: list.splits)

lemma split_on_append: "split_on c (a @ c # b) = split_on c a @ split_on c b"
proof (induction a)
  case Nil
  show ?case by simp
next
  case (Cons x a)
  obtain p ps where p: "split_on c a = p # ps" by (cases "split_on c a") auto
  with Cons show ?case by simp
qed

lemma split_on_no_sep: "c \<notin> set v \<Longrightarrow> split_on c v = [v]"
  by (induction v) auto

lemma hd_split_on: "s \<noteq> [] \<Longrightarrow> hd s \<noteq> c \<Longrightarrow> hd (split_on c s) \<noteq> []"
  by (cases s) (auto split: list.splits)

lemma join_nonempty: "ps \<noteq> [] \<Longrightarrow> hd ps \<noteq> [] \<Longrightarrow> join sep ps \<noteq> []"
  by (induction sep ps rule: join.induct) auto

lemma match_shape_segment:
  assumes "match_shape s n v"
  shows "v \<in> set (split_on CHR ''-'' s) \<and> starts_with_digit v"
proof -
  from assms obtain rest where r: "s = n @ CHR ''-'' # (v @ CHR ''-'' # rest)" "version_text v"
    by (auto simp: match_shape_def)
  have "split_on CHR ''-'' s = split_on CHR ''-'' n @ [v] @ split_on CHR ''-'' rest"
    using r(2) by (simp add: r(1) split_on_append split_on_no_sep version_text_def)
  moreover have "starts_with_digit v" using r(2)
    by (cases v) (auto simp: version_text_def starts_with_digit_def)
  ultimately show ?thesis by simp
qed

lemma fallback_scan_None:
  "i < length parts \<Longrightarrow> \<not> list_ex starts_with_digit parts \<Longrightarrow> fallback_scan parts i = None"
  by (induction i) (auto simp: list_ex_iff)

lemma fallback_scan_Some:
  "fallback_scan parts i = Some (n, v) \<Longrightarrow>
     \<exists>j. 1 \<le> j \<and> j \<le> i \<and> n = join ''-'' (take j parts) \<and> v = parts ! j \<and>
       starts_with_digit (parts ! j)"
proof (induction i)
  case 0
  then show ?case by simp
next
  case (Suc i)
  show ?case
  proof (cases "starts_with_digit (parts ! Suc i)")
    case True
    with Suc.prems show ?thesis by (intro exI [of _ "Suc i"]) auto
  next
    case False
    with Suc.prems have "fallback_scan parts i = Some (n, v)" by simp
    from Suc.IH [OF this] show ?thesis by (metis le_Suc_eq)
  qed
qed

lemma primary_match_None:
  "\<not> list_ex starts_with_digit (split_on CHR ''-'' f) \<Longrightarrow> primary_match f = None"
proof (rule ccontr)
  assume no: "\<not> list_ex starts_with_digit (split_on CHR ''-'' f)" and "primary_match f \<noteq> None"
  then obtain n v where "primary_match f = Some (n, v)" by auto
  then have "(n, v) \<in> set (primary_matches f)"
    by (auto simp: primary_match_def split: list.splits)
  from match_shape_segment [OF primary_matches_sound [OF this]] no show False
    by (auto simp: list_ex_iff)
qed

lemma parse_filename_unknown:
  assumes "\<not> list_ex starts_with_digit (split_on CHR ''-'' f)"
  shows "parse_filename f = (f, ''unknown'')"
proof -
  have "length (split_on CHR ''-'' f) - 1 < length (split_on CHR ''-'' f)"
    using split_on_nonempty [of "CHR ''-''" f] by (cases "split_on CHR ''-'' f") simp_all
  then have "fallback_scan (split_on CHR ''-'' f) (length (split_on CHR ''-'' f) - 1) = None"
    using assms by (rule fallback_scan_None)
  with primary_match_None [OF assms] show ?thesis
    by (simp add: parse_filename_def Let_def)
qed

lemma parse_filename_name_nonempty:
  assumes f: "f \<noteq> []" "\<not> startswith f ''-''"
  shows "fst (parse_filename f) \<noteq> []"
proof (cases "primary_match f")
  case (Some nv)
  obtain n v where nv: "nv = (n, v)" by (cases nv)
  with Some have "(n, v) \<in> set (primary_matches f)"
    by (auto simp: primary_match_def split: list.splits)
  from primary_matches_sound [OF this] have "n \<noteq> []" by (auto simp: match_shape_def)
  with Some nv show ?thesis by (simp add: parse_filename_def)
next
  case None
  let ?parts = "split_on CHR ''-'' f"
  let ?scan = "if 2 \<le> length ?parts then fallback_scan ?parts (length ?parts - 1) else None"
  show ?thesis
  proof (cases ?scan)
    case None
    with \<open>primary_match f = None\<close> f(1) show ?thesis
      by (simp add: parse_filename_def Let_def)
  next
    case (Some nv)
    obtain n v where nv: "nv = (n, v)" by (cases nv)
    with Some have "fallback_scan ?parts (length ?parts - 1) = Some (n, v)"
      by (simp split: if_splits)
    from fallback_scan_Some [OF this] obtain j where j: "1 \<le> j" "n = join ''-'' (take j ?parts)"
      by blast
    from f have "hd f \<noteq> CHR ''-''" by (cases f) (auto simp: startswith_def)
    with f(1) have "hd ?parts \<noteq> []" by (rule hd_split_on)
    moreover from j(1) have "take j ?parts \<noteq> []" "hd (take j ?parts) = hd ?parts"
      by (cases j; cases ?parts; simp)+
    ultimately have "n \<noteq> []" unfolding j(2) by (intro join_nonempty) simp_all
    with \<open>primary_match f = None\<close> Some nv show ?thesis
      by (simp add: parse_filename_def Let_def)
  qed
qed

section \<open>The scenario and the classifier\<close>

text \<open>
  C1. The document with the one environment \<open>default\<close>, the one platform \<open>linux-64\<close>
  and the one \<open>conda\<close> entry whose file is \<open>brotli-python-1.1.0-py39hf88036b_3.conda\<close>
  yields exactly one record, with name \<open>brotli-python\<close>, version \<open>1.1.0\<close>, that
  environment and that platform, and nothing is printed; the name satisfies the condition
  of \<open>create_requirements_txt\<close>, through the indicator \<open>brotli-python\<close> and through
  the suffix \<open>-python\<close>.
\<close>

theorem scenario_one_record:
  "extract_packages_from_pixi_lock ck scenario_document =
     (Inr [\<lparr>pkg_name = ''brotli-python'', pkg_version = ''1.1.0'',
            pkg_environment = ''default'', pkg_platform = ''linux-64'',
            pkg_url = scenario_url, pkg_ecosystem = ''conda''\<rparr>], [])
   \<and> is_python_package ''brotli-python''
   \<and> contains ''brotli-python'' (lower ''brotli-python'')
   \<and> endswith (lower ''brotli-python'') ''-python''"
  by code_simp

text \<open>
  C2, as the code has it. The name \<open>numpy\<close> satisfies the condition of
  \<open>create_requirements_txt\<close>: \<open>numpy\<close> is one of the indicators, so the containment
  test holds, while none of the four other tests does (no prefix \<open>py\<close>, no \<open>-py\<close>,
  no suffix \<open>-python\<close>, no \<open>python\<close>).
\<close>

theorem numpy_is_python_package:
  "is_python_package ''numpy''
   \<and> ''numpy'' \<in> set python_indicators
   \<and> indicator_hit (lower ''numpy'')
   \<and> \<not> startswith (lower ''numpy'') ''py''
   \<and> \<not> contains ''-py'' (lower ''numpy'')
   \<and> \<not> endswith (lower ''numpy'') ''-python''
   \<and> \<not> contains ''python'' (lower ''numpy'')"
  by code_simp

text \<open>C2 as stated, that \<open>numpy\<close> does not satisfy the condition, is false.\<close>

theorem numpy_not_native_counterexample:
  "\<not> (\<not> is_python_package ''numpy'' \<and> \<not> indicator_hit (lower ''numpy''))"
  by code_simp

section \<open>The parser: names, the primary match, the fallback\<close>

text \<open>
  C3, as the code has it. When \<open>urlparse\<close> returns on the locator and the cleaned
  filename is not empty and does not begin with a hyphen, the parser returns a name that
  is not empty.
\<close>

theorem name_nonempty:
  "cleaned_filename ck conda_url = Inr f \<Longrightarrow> f \<noteq> [] \<Longrightarrow> \<not> startswith f ''-'' \<Longrightarrow>
     \<exists>n v. extract_package_info ck conda_url = Inr (n, v) \<and> n \<noteq> []"
proof -
  assume c: "cleaned_filename ck conda_url = Inr f" and f: "f \<noteq> []" "\<not> startswith f ''-''"
  from parse_filename_name_nonempty [OF f] c show ?thesis
    by (cases "parse_filename f") (simp add: extract_package_info_def)
qed

theorem name_nonempty_witness:
  "cleaned_filename (\<lambda>_. True) ''weirdname'' = Inr ''weirdname''
   \<and> ''weirdname'' \<noteq> [] \<and> \<not> startswith ''weirdname'' ''-''
   \<and> (\<exists>n v. extract_package_info (\<lambda>_. True) ''weirdname'' = Inr (n, v) \<and> n \<noteq> [])"
proof -
  have c: "cleaned_filename (\<lambda>_. True) ''weirdname'' = Inr ''weirdname''" by code_simp
  have s: "\<not> startswith ''weirdname'' ''-''" by code_simp
  from name_nonempty [OF c _ s] c s show ?thesis by simp
qed

text \<open>
  C3 as stated fails: on the empty locator, and on a locator that names no file, the
  name is the empty string; so it is on a file named \<open>-1.0.conda\<close>, where the fallback
  takes what stands before the version.
\<close>

theorem empty_name_counterexample:
  "(\<forall>ck. extract_package_info ck [] = Inr ([], ''unknown''))
   \<and> (\<forall>ck. extract_package_info ck ''https://host/'' = Inr ([], ''unknown''))
   \<and> (\<forall>ck. extract_package_info ck ''https://host/path/-1.0.conda'' = Inr ([], ''1.0''))"
proof -
  have "extract_package_info ck [] = Inr ([], ''unknown'')" for ck by code_simp
  moreover have "extract_package_info ck ''https://host/'' = Inr ([], ''unknown'')" for ck
    by code_simp
  moreover have "extract_package_info ck ''https://host/path/-1.0.conda'' = Inr ([], ''1.0'')" for ck
    by code_simp
  ultimately show ?thesis by blast
qed

text \<open>
  C4, as the code has it. When the primary pattern matches the cleaned filename, the
  parser returns its two groups; the filename is name, hyphen, version, hyphen, rest,
  with a non-empty name and a version segment that starts with a digit; and the name is
  the shortest possible: every other way to cut the filename into a non-empty name, a
  segment of version shape and a rest has a name at least as long. The version is the
  first such segment, not the last.
\<close>

theorem primary_match_shortest_name:
  assumes "primary_match s = Some (n, v)"
  shows "parse_filename s = (n, v) \<and> match_shape s n v \<and>
    (\<forall>n' v' rest'. s = n' @ ''-'' @ v' @ ''-'' @ rest' \<and> n' \<noteq> [] \<and> version_shaped v'
        \<longrightarrow> length n \<le> length n')"
proof -
  from primary_match_first [OF assms] obtain k where k: "1 \<le> k" "k \<le> length (takeWhile is_any s)"
    "n = take k s" "(n, v) \<in> set (matches_after s (drop k s))"
    and first: "\<forall>j. 1 \<le> j \<and> j < k \<longrightarrow> matches_after s (drop j s) = []" by blast
  from after_drop_shape [OF k(1,2,4)] have shape: "match_shape s n v" by blast
  have len: "length n = k" using k(2,3) length_takeWhile_le [of is_any s] by simp
  have "length n \<le> length n'"
    if c: "s = n' @ ''-'' @ v' @ ''-'' @ rest'" "n' \<noteq> []" "version_shaped v'" for n' v' rest'
  proof (rule ccontr)
    assume "\<not> length n \<le> length n'"
    with len c(2) have "1 \<le> length n'" "length n' < k" by (auto simp: Suc_le_eq)
    with first have "matches_after s (drop (length n') s) = []" by blast
    with candidate_matches [OF c(1,3) match_shape_line_ok [OF shape]] show False by simp
  qed
  moreover from assms have "parse_filename s = (n, v)" by (simp add: parse_filename_def)
  ultimately show ?thesis using shape by blast
qed

theorem primary_match_shortest_name_witness:
  "primary_match ''name-1-rest-2.0-build'' = Some (''name'', ''1'')
   \<and> parse_filename ''name-1-rest-2.0-build'' = (''name'', ''1'')
   \<and> version_shaped ''2.0''
   \<and> length ''name'' \<le> length ''name-1-rest''"
proof -
  have m: "primary_match ''name-1-rest-2.0-build'' = Some (''name'', ''1'')" by code_simp
  have v: "version_shaped ''2.0''" by code_simp
  have c: "''name-1-rest-2.0-build'' = ''name-1-rest'' @ ''-'' @ ''2.0'' @ ''-'' @ ''build''" by simp
  from primary_match_shortest_name [OF m] have
    "parse_filename ''name-1-rest-2.0-build'' = (''name'', ''1'')"
    and "\<forall>n' v' rest'. ''name-1-rest-2.0-build'' = n' @ ''-'' @ v' @ ''-'' @ rest' \<and>
        n' \<noteq> [] \<and> version_shaped v' \<longrightarrow> length ''name'' \<le> length n'"
    by blast+
  with m v c show ?thesis by blast
qed

text \<open>
  C4 as stated fails: on \<open>name-1-rest-2.0-build\<close> the primary pattern matches and the
  name stops at the first boundary, \<open>name\<close> with version \<open>1\<close>, not at the last,
  \<open>name-1-rest\<close> with version \<open>2.0\<close>.
\<close>

theorem longest_name_counterexample:
  "primary_match ''name-1-rest-2.0-build'' = Some (''name'', ''1'')
   \<and> primary_match ''name-1-rest-2.0-build'' \<noteq> Some (''name-1-rest'', ''2.0'')
   \<and> (\<forall>ck. extract_package_info ck ''https://host/path/name-1-rest-2.0-build.conda'' =
         Inr (''name'', ''1''))"
proof -
  have "primary_match ''name-1-rest-2.0-build'' = Some (''name'', ''1'')" by code_simp
  moreover have "extract_package_info ck ''https://host/path/name-1-rest-2.0-build.conda'' =
      Inr (''name'', ''1'')" for ck
    by code_simp
  ultimately show ?thesis by simp
qed

text \<open>
  C7. When the cleaned filename of a locator has no segment between hyphens that
  begins with a digit, the parser returns the whole cleaned filename as the name and
  \<open>unknown\<close> as the version; so it does on \<open>https://host/path/weirdname.conda\<close>.
\<close>

theorem no_digit_segment_unknown:
  "cleaned_filename ck conda_url = Inr f \<Longrightarrow>
   \<not> list_ex starts_with_digit (split_on CHR ''-'' f) \<Longrightarrow>
     extract_package_info ck conda_url = Inr (f, ''unknown'')"
  by (simp add: extract_package_info_def parse_filename_unknown)

theorem no_digit_segment_unknown_witness:
  "cleaned_filename (\<lambda>_. True) ''https://host/path/weirdname.conda'' = Inr ''weirdname''
   \<and> \<not> list_ex starts_with_digit (split_on CHR ''-'' ''weirdname'')
   \<and> extract_package_info (\<lambda>_. True) ''https://host/path/weirdname.conda'' =
       Inr (''weirdname'', ''unknown'')"
proof -
  have c: "cleaned_filename (\<lambda>_. True) ''https://host/path/weirdname.conda'' = Inr ''weirdname''"
    by code_simp
  have d: "\<not> list_ex starts_with_digit (split_on CHR ''-'' ''weirdname'')" by code_simp
  from no_digit_segment_unknown [OF c d] c d show ?thesis by simp
qed

section \<open>Extraction: records, malformed documents, determinism\<close>

lemma extract_returns:
  "\<forall>t \<in> set (walk data). url_accepted ck (fst t) \<Longrightarrow>
     \<exists>recs. fst (extract_packages_from_pixi_lock ck data) = Inr recs \<and>
       map triple_of recs = walk data \<and> list_all (parsed_record ck) recs"
proof (cases "environments data")
  case None
  then show ?thesis by (simp add: extract_packages_from_pixi_lock_def walk_def)
next
  case (Some envs)
  assume ok: "\<forall>t \<in> set (walk data). url_accepted ck (fst t)"
  show ?thesis
  proof (cases "environments_loop ck envs []")
    case (Inl a)
    with ok Some environments_loop_Inl [of ck envs "[]" a] show ?thesis
      by (simp add: walk_def)
  next
    case (Inr r)
    from environments_loop_Inr [OF Inr] Some Inr show ?thesis
      by (auto simp: extract_packages_from_pixi_lock_def walk_def)
  qed
qed

lemma extract_raises:
  "\<not> (\<forall>t \<in> set (walk data). url_accepted ck (fst t)) \<Longrightarrow>
     fst (extract_packages_from_pixi_lock ck data) = Inl ValueError"
proof (cases "environments data")
  case None
  assume "\<not> (\<forall>t \<in> set (walk data). url_accepted ck (fst t))"
  with None show ?thesis by (simp add: walk_def)
next
  case (Some envs)
  assume "\<not> (\<forall>t \<in> set (walk data). url_accepted ck (fst t))"
  with Some environments_loop_Inl [of ck envs "[]" ValueError] show ?thesis
    by (simp add: extract_packages_from_pixi_lock_def walk_def)
qed

text \<open>
  C5, as the code has it. When \<open>urlparse\<close> returns on the locator of every entry
  that carries the \<open>conda\<close> key, the extraction returns one record for each such
  entry, in document order, with the entry's locator, environment and platform and the
  name and version parsed from the locator, and no record for an entry without the key.
  When \<open>urlparse\<close> raises on one of these locators, the extraction raises and
  returns no record at all.
\<close>

theorem one_record_per_tagged_entry:
  "(if \<forall>t \<in> set (walk data). url_accepted ck (fst t)
    then \<exists>recs. fst (extract_packages_from_pixi_lock ck data) = Inr recs \<and>
           map triple_of recs = walk data \<and> list_all (parsed_record ck) recs
    else fst (extract_packages_from_pixi_lock ck data) = Inl ValueError)"
proof (cases "\<forall>t \<in> set (walk data). url_accepted ck (fst t)")
  case True
  from extract_returns [OF True] True show ?thesis by simp
next
  case False
  from extract_raises [OF False] False show ?thesis by simp
qed

theorem one_record_per_tagged_entry_witness:
  "walk mixed_document =
     [(scenario_url, ''default'', ''linux-64''),
      (''https://host/path/weirdname.conda'', ''default'', ''osx-arm64'')]
   \<and> (\<exists>recs. fst (extract_packages_from_pixi_lock (\<lambda>_. True) mixed_document) = Inr recs \<and>
         map triple_of recs = walk mixed_document \<and> list_all (parsed_record (\<lambda>_. True)) recs)"
proof -
  have w: "walk mixed_document =
     [(scenario_url, ''default'', ''linux-64''),
      (''https://host/path/weirdname.conda'', ''default'', ''osx-arm64'')]"
    by code_simp
  have ok: "\<forall>t \<in> set (walk mixed_document). url_accepted (\<lambda>_. True) (fst t)"
    unfolding w by code_simp
  from one_record_per_tagged_entry [of mixed_document "\<lambda>_. True"] ok w show ?thesis
    by simp
qed

text \<open>
  C5 as stated fails: on a document whose one \<open>conda\<close> entry has the locator
  \<open>http://[\<close>, \<open>urlparse\<close> raises ValueError, nothing catches it, and the tagged
  triple yields no record.
\<close>

theorem tagged_entry_dropped_counterexample:
  "walk bad_document = [(''http://['', ''default'', ''linux-64'')]
   \<and> (\<forall>ck. fst (extract_packages_from_pixi_lock ck bad_document) = Inl ValueError)"
proof -
  have "fst (extract_packages_from_pixi_lock ck bad_document) = Inl ValueError" for ck
    by code_simp
  moreover have "walk bad_document = [(''http://['', ''default'', ''linux-64'')]"
    by code_simp
  ultimately show ?thesis by blast
qed

text \<open>
  C6. On a document without the key \<open>environments\<close> the extraction returns the empty
  list, raises nothing, and prints the line that says so.
\<close>

theorem malformed_document:
  "environments data = None \<Longrightarrow>
     extract_packages_from_pixi_lock ck data = (Inr [], [no_environments_message])"
  by (simp add: extract_packages_from_pixi_lock_def)

theorem malformed_document_witness:
  "environments \<lparr>environments = None\<rparr> = None \<and>
   extract_packages_from_pixi_lock (\<lambda>_. True) \<lparr>environments = None\<rparr> =
     (Inr [], [no_environments_message])"
  using malformed_document [of "\<lparr>environments = None\<rparr>" "\<lambda>_. True"] by simp

lemma message_only_when_malformed:
  "(snd (extract_packages_from_pixi_lock ck data) = [no_environments_message]) =
     (environments data = None)"
  by (simp add: extract_packages_from_pixi_lock_def split: option.splits)

text \<open>
  C8. Two runs of the extraction on the same document end in the same outcome: the same
  records in the same order, or the same exception, and the same lines printed.
\<close>

theorem extraction_deterministic:
  "extraction_run ck data run1 \<Longrightarrow> extraction_run ck data run2 \<Longrightarrow> run1 = run2"
  by (auto elim!: extraction_run.cases dest: environments_run_deterministic)

theorem extraction_deterministic_witness:
  "extraction_run (\<lambda>_. True) mixed_document
     (Inr [make_package ''default'' ''linux-64'' scenario_url (''brotli-python'', ''1.1.0''),
           make_package ''default'' ''osx-arm64'' ''https://host/path/weirdname.conda''
             (''weirdname'', ''unknown'')], [])
   \<and> extraction_run (\<lambda>_. True) mixed_document
       (extract_packages_from_pixi_lock (\<lambda>_. True) mixed_document)
   \<and> extract_packages_from_pixi_lock (\<lambda>_. True) mixed_document =
       (Inr [make_package ''default'' ''linux-64'' scenario_url (''brotli-python'', ''1.1.0''),
             make_package ''default'' ''osx-arm64'' ''https://host/path/weirdname.conda''
               (''weirdname'', ''unknown'')], [])"
proof -
  let ?ck = "\<lambda>_ :: string. True"
  let ?u2 = "''https://host/path/weirdname.conda''"
  let ?p1 = "make_package ''default'' ''linux-64'' scenario_url (''brotli-python'', ''1.1.0'')"
  let ?p2 = "make_package ''default'' ''osx-arm64'' ?u2 (''weirdname'', ''unknown'')"
  let ?pypi = "[(''pypi'', ''https://files.pythonhosted.org/packages/idna-3.7-py3-none-any.whl'')]"
  have e1: "extract_package_info ?ck scenario_url = Inr (''brotli-python'', ''1.1.0'')"
    by code_simp
  have e2: "extract_package_info ?ck ?u2 = Inr (''weirdname'', ''unknown'')"
    by code_simp
  have a: "entries_run ?ck ''default'' ''linux-64'' [?pypi] [?p1] (Inr [?p1])"
    by (rule entries_skip [OF _ entries_end]) simp
  have b: "entries_run ?ck ''default'' ''linux-64'' [ [(''conda'', scenario_url)], ?pypi] [] (Inr [?p1])"
    using entries_append [of "[(''conda'', scenario_url)]" scenario_url ?ck _ "''default''"
        "''linux-64''" "[?pypi]" "[]" "Inr [?p1]", OF _ e1] a
    by simp
  have c: "entries_run ?ck ''default'' ''osx-arm64'' [ [(''conda'', ?u2)]] [?p1] (Inr [?p1, ?p2])"
    using entries_append [of "[(''conda'', ?u2)]" ?u2 ?ck _ "''default''" "''osx-arm64''" "[]"
        "[?p1]" "Inr [?p1, ?p2]", OF _ e2] entries_end [of ?ck "''default''" "''osx-arm64''" "[?p1, ?p2]"]
    by simp
  have d: "platforms_run ?ck ''default''
      [(''linux-64'', [ [(''conda'', scenario_url)], ?pypi]), (''osx-arm64'', [ [(''conda'', ?u2)]])]
      [] (Inr [?p1, ?p2])"
    by (rule platforms_next [OF b platforms_next [OF c platforms_end]])
  have r1: "extraction_run ?ck mixed_document (Inr [?p1, ?p2], [])"
    by (rule run_environments [of _ "the (environments mixed_document)"])
       (simp_all add: mixed_document_def
          environments_next [OF _ d environments_continue [OF _ environments_end]])
  have r2: "extraction_run ?ck mixed_document (extract_packages_from_pixi_lock ?ck mixed_document)"
    by (rule extraction_runs)
  from extraction_deterministic [OF r1 r2] r1 r2 show ?thesis by simp
qed

section \<open>The manifests\<close>

text \<open>
  C9. The map of the manifest is keyed by the strings \<open>name@version\<close> of the records,
  each once. Records with the same name and version have the same key, a later record
  overwrites an earlier one with its key, and the entry under a key is the one of the
  last record with that key. The count returned is the number of distinct keys, at most
  the total recorded in the metadata, and smaller exactly when two records share a key.
\<close>

theorem osv_lockfile_last_wins:
  assumes "create_osv_lockfile packages = (l, n)"
  shows "osv_total_packages l = length packages
    \<and> set (map fst (osv_packages l)) = set (map pkg_key packages)
    \<and> distinct (map fst (osv_packages l))
    \<and> (\<forall>p \<in> set packages. pkg_key p = pkg_name p @ ''@'' @ pkg_version p \<and>
          map_of (osv_packages l) (pkg_key p) =
            Some (osv_entry_of (last_with pkg_key (pkg_key p) packages)))
    \<and> n = card (set (map pkg_key packages))
    \<and> n \<le> osv_total_packages l
    \<and> (n < osv_total_packages l) = (\<not> distinct (map pkg_key packages))"
proof -
  from assms have l: "osv_packages l = fold osv_store packages []"
    and n: "n = length (fold osv_store packages [])"
    and t: "osv_total_packages l = length packages"
    by (auto simp: create_osv_lockfile_def Let_def)
  have k: "set (map fst (osv_packages l)) = set (map pkg_key packages)"
    using fold_update_keys [of pkg_key osv_entry_of packages "[]"] by (simp add: l osv_fold)
  have d: "distinct (map fst (osv_packages l))"
    unfolding l osv_fold by (rule fold_update_distinct) simp
  have m: "\<forall>p \<in> set packages. pkg_key p = pkg_name p @ ''@'' @ pkg_version p \<and>
          map_of (osv_packages l) (pkg_key p) =
            Some (osv_entry_of (last_with pkg_key (pkg_key p) packages))"
    by (auto simp: l osv_fold fold_update_map_of filter_empty_conv) (simp add: pkg_key_def)
  have c: "n = card (set (map pkg_key packages))"
    by (simp add: n osv_fold fold_update_length)
  have le: "n \<le> osv_total_packages l"
    unfolding c t using card_length [of "map pkg_key packages"] by simp
  have "distinct (map pkg_key packages) =
      (card (set (map pkg_key packages)) = length (map pkg_key packages))"
    using card_distinct distinct_card by blast
  then have lt: "(n < osv_total_packages l) = (\<not> distinct (map pkg_key packages))"
    unfolding c t using card_length [of "map pkg_key packages"] by auto
  from t k d m c le lt show ?thesis by blast
qed

theorem osv_lockfile_last_wins_witness:
  "snd (create_osv_lockfile dup_packages) = 1
   \<and> osv_total_packages (fst (create_osv_lockfile dup_packages)) = 2
   \<and> map_of (osv_packages (fst (create_osv_lockfile dup_packages))) ''zlib@1.3'' =
       Some \<lparr>osv_name = ''zlib'', osv_version = ''1.3'',
             osv_resolved = ''https://b/zlib-1.3-h2.conda'', osv_ecosystem = ''conda'',
             osv_environment = ''test'', osv_platform = ''linux-64''\<rparr>"
proof -
  have e: "create_osv_lockfile dup_packages =
      (fst (create_osv_lockfile dup_packages), snd (create_osv_lockfile dup_packages))"
    by simp
  have p: "zlib_record ''1.3'' ''test'' ''https://b/zlib-1.3-h2.conda'' \<in> set dup_packages"
    by (simp add: dup_packages_def)
  have k: "map pkg_key dup_packages = [''zlib@1.3'', ''zlib@1.3'']"
    by (simp add: dup_packages_def pkg_key_def zlib_record_def)
  from osv_lockfile_last_wins [OF e] p k show ?thesis
    by (auto simp: last_with_def dup_packages_def pkg_key_def zlib_record_def osv_entry_of_def)
qed

text \<open>
  C10. The two dependency maps of the npm-style manifest hold exactly the names of the
  records whose version is not \<open>unknown\<close>; under a name stands the last such record
  with that name; no entry has the version \<open>unknown\<close>; the count returned is the
  number of distinct names among the records with a known version.
\<close>

theorem package_json_omits_unknown:
  assumes "create_package_json_style packages = (l, n)"
  shows "set (map fst (root_dependencies l)) = set (map pkg_name (known_packages packages))
    \<and> set (map fst (dependencies l)) = set (map pkg_name (known_packages packages))
    \<and> distinct (map fst (root_dependencies l)) \<and> distinct (map fst (dependencies l))
    \<and> (\<forall>p \<in> set (known_packages packages).
         map_of (root_dependencies l) (pkg_name p) =
           Some (pkg_version (last_with pkg_name (pkg_name p) (known_packages packages))) \<and>
         map_of (dependencies l) (pkg_name p) =
           Some (npm_dependency_of (last_with pkg_name (pkg_name p) (known_packages packages))))
    \<and> (\<forall>e \<in> set (root_dependencies l). snd e \<noteq> ''unknown'')
    \<and> (\<forall>e \<in> set (dependencies l). npm_version (snd e) \<noteq> ''unknown'')
    \<and> n = card (set (map pkg_name (known_packages packages)))"
proof -
  let ?known = "known_packages packages"
  from assms have r: "root_dependencies l = fold (\<lambda>p. AList.update (pkg_name p) (pkg_version p)) ?known []"
    and d: "dependencies l = fold (\<lambda>p. AList.update (pkg_name p) (npm_dependency_of p)) ?known []"
    and n: "n = length (dependencies l)"
    by (auto simp: create_package_json_style_def Let_def npm_fold)
  have k1: "set (map fst (root_dependencies l)) = set (map pkg_name ?known)"
    using fold_update_keys [of pkg_name pkg_version ?known "[]"] by (simp add: r)
  have k2: "set (map fst (dependencies l)) = set (map pkg_name ?known)"
    using fold_update_keys [of pkg_name npm_dependency_of ?known "[]"] by (simp add: d)
  have d1: "distinct (map fst (root_dependencies l))"
    unfolding r by (rule fold_update_distinct) simp
  have d2: "distinct (map fst (dependencies l))"
    unfolding d by (rule fold_update_distinct) simp
  have m: "\<forall>p \<in> set ?known.
           map_of (root_dependencies l) (pkg_name p) =
             Some (pkg_version (last_with pkg_name (pkg_name p) ?known)) \<and>
           map_of (dependencies l) (pkg_name p) =
             Some (npm_dependency_of (last_with pkg_name (pkg_name p) ?known))"
    by (auto simp: r d fold_update_map_of filter_empty_conv)
  have u1: "\<forall>e \<in> set (root_dependencies l). snd e \<noteq> ''unknown''"
  proof
    fix e assume e: "e \<in> set (root_dependencies l)"
    from e d1 have m: "map_of (root_dependencies l) (fst e) = Some (snd e)" by simp
    have ne: "filter (\<lambda>q. pkg_name q = fst e) ?known \<noteq> []"
      using m unfolding r fold_update_map_of by (auto split: if_splits)
    with m have "snd e = pkg_version (last_with pkg_name (fst e) ?known)"
      unfolding r fold_update_map_of by simp
    moreover from last_with_in [OF ne] have "last_with pkg_name (fst e) ?known \<in> set ?known" by simp
    ultimately show "snd e \<noteq> ''unknown''" by (simp add: known_packages_def)
  qed
  have u2: "\<forall>e \<in> set (dependencies l). npm_version (snd e) \<noteq> ''unknown''"
  proof
    fix e assume e: "e \<in> set (dependencies l)"
    from e d2 have m: "map_of (dependencies l) (fst e) = Some (snd e)" by simp
    have ne: "filter (\<lambda>q. pkg_name q = fst e) ?known \<noteq> []"
      using m unfolding d fold_update_map_of by (auto split: if_splits)
    with m have "snd e = npm_dependency_of (last_with pkg_name (fst e) ?known)"
      unfolding d fold_update_map_of by simp
    moreover from last_with_in [OF ne] have "last_with pkg_name (fst e) ?known \<in> set ?known" by simp
    ultimately show "npm_version (snd e) \<noteq> ''unknown''"
      by (simp add: known_packages_def npm_dependency_of_def)
  qed
  have c: "n = card (set (map pkg_name ?known))"
    by (simp add: n d fold_update_length)
  from k1 k2 d1 d2 m u1 u2 c show ?thesis by blast
qed

theorem package_json_omits_unknown_witness:
  "length npm_packages = 3
   \<and> snd (create_package_json_style npm_packages) = 1
   \<and> root_dependencies (fst (create_package_json_style npm_packages)) = [(''zlib'', ''1.3'')]
   \<and> map fst (dependencies (fst (create_package_json_style npm_packages))) = [''zlib'']
   \<and> map_of (dependencies (fst (create_package_json_style npm_packages))) ''zlib'' =
       Some \<lparr>npm_version = ''1.3'', npm_resolved = ''https://b/zlib-1.3-h2.conda'',
             npm_ecosystem = ''conda''\<rparr>"
proof -
  have e: "create_package_json_style npm_packages =
      (fst (create_package_json_style npm_packages), snd (create_package_json_style npm_packages))"
    by simp
  have k: "known_packages npm_packages =
      [zlib_record ''1.2'' ''default'' ''https://a/zlib-1.2-h0.conda'',
       zlib_record ''1.3'' ''test'' ''https://b/zlib-1.3-h2.conda'']"
    by (simp add: known_packages_def npm_packages_def zlib_record_def)
  have v: "root_dependencies (fst (create_package_json_style npm_packages)) = [(''zlib'', ''1.3'')]"
    "map fst (dependencies (fst (create_package_json_style npm_packages))) = [''zlib'']"
    by (simp_all add: create_package_json_style_def npm_packages_def npm_store_def zlib_record_def)
  from package_json_omits_unknown [OF e] k v show ?thesis
    by (auto simp: last_with_def zlib_record_def npm_dependency_of_def npm_packages_def)
qed

end
